theory Spec2Isabelle
  imports Main
begin

section \<open>The runWhile effect of redux-saga-observer (src/effects/RunWhile.ts)\<close>

text \<open>
  The module builds a guarded saga in stages. Every stage object holds methods bound to a
  private \<open>RunWhileDefinition\<close> object; the definition refers to two arrays (the invariants
  and the violation callbacks). Objects and arrays live in a store, so that what a builder
  call allocates and what it leaves alone can be stated. The generator \<open>runInternal\<close>
  is a resumption: a tree whose nodes are the effects it yields and whose edges are the
  values the middleware resumes it with. The state object and the violations array that a
  run hands to the handlers are objects of a second store, which the handlers may write to.
\<close>

subsection \<open>Values of the program\<close>

type_synonym addr = nat

text \<open>\<open>type Invariant<S, I> = { tag: I, clause: (s: S) => boolean }\<close>\<close>

record 's Invariant =
  tag :: string
  clause :: "'s \<Rightarrow> bool"

text \<open>
  A saga is a reference to a generator function: the module's own \<open>function* nothing()\<close>
  of \<open>runWhile\<close>, or one supplied by the caller.
\<close>

datatype 't saga_ref = nothing | user_saga 't

text \<open>
  \<open>type RunWhileDefinition<S, I> = { invariants, onViolationCallbacks, saga }\<close>; the two
  array fields hold references.
\<close>

record 't RunWhileDefinition =
  invariants :: addr
  onViolationCallbacks :: addr
  saga :: "'t saga_ref"

datatype ('s, 't, 'h) cell =
    DefinitionObj "'t RunWhileDefinition"
  | InvariantArray "'s Invariant list"
  | CallbackArray "'h list"

type_synonym ('s, 't, 'h) heap = "('s, 't, 'h) cell list"

definition lookup :: "('s, 't, 'h) heap \<Rightarrow> addr \<Rightarrow> ('s, 't, 'h) cell option" where
  "lookup h a = (if a < length h then Some (h ! a) else None)"

text \<open>An object or array literal: a new cell at a fresh address.\<close>

definition alloc :: "('s, 't, 'h) heap \<Rightarrow> ('s, 't, 'h) cell \<Rightarrow> addr \<times> ('s, 't, 'h) heap" where
  "alloc h c = (length h, h @ [c])"

definition get_definition :: "('s, 't, 'h) heap \<Rightarrow> addr \<Rightarrow> 't RunWhileDefinition option" where
  "get_definition h a = (case lookup h a of Some (DefinitionObj d) \<Rightarrow> Some d | _ \<Rightarrow> None)"

definition get_invariants :: "('s, 't, 'h) heap \<Rightarrow> addr \<Rightarrow> 's Invariant list option" where
  "get_invariants h a = (case lookup h a of Some (InvariantArray xs) \<Rightarrow> Some xs | _ \<Rightarrow> None)"

definition get_callbacks :: "('s, 't, 'h) heap \<Rightarrow> addr \<Rightarrow> 'h list option" where
  "get_callbacks h a = (case lookup h a of Some (CallbackArray xs) \<Rightarrow> Some xs | _ \<Rightarrow> None)"

text \<open>
  What a definition object says once its two references are followed: the task, the
  invariants in registration order, the callbacks in registration order.
\<close>

record ('s, 't, 'h) config =
  cfg_saga :: "'t saga_ref"
  cfg_invariants :: "'s Invariant list"
  cfg_callbacks :: "'h list"

definition load :: "('s, 't, 'h) heap \<Rightarrow> addr \<Rightarrow> ('s, 't, 'h) config option" where
  "load h this =
     (case get_definition h this of
        None \<Rightarrow> None
      | Some d \<Rightarrow>
          (case get_invariants h (invariants d) of
             None \<Rightarrow> None
           | Some invs \<Rightarrow>
               (case get_callbacks h (onViolationCallbacks d) of
                  None \<Rightarrow> None
                | Some cbs \<Rightarrow>
                    Some \<lparr>cfg_saga = saga d, cfg_invariants = invs, cfg_callbacks = cbs\<rparr>)))"

text \<open>
  The four stage types. A stage object is a record of methods, all bound to one definition:
  \<open>RunWhileMonad\<close> has \<open>saga\<close>; \<open>RunWhileSagaMonad\<close> has \<open>run\<close> and \<open>invariant\<close>;
  \<open>RunWhileInvariantMonad\<close> has \<open>invariant\<close> and \<open>onViolation\<close>;
  \<open>RunWhileOnViolationMonad\<close> has \<open>run\<close> and \<open>onViolation\<close>.
\<close>

datatype stage_type =
    RunWhileMonad
  | RunWhileSagaMonad
  | RunWhileInvariantMonad
  | RunWhileOnViolationMonad

type_synonym stage = "stage_type \<times> addr"

definition bound_this :: "stage \<Rightarrow> addr" where
  "bound_this st = snd st"

text \<open>\<open>throw new Error(message)\<close>\<close>

datatype error = Error (message: string)

subsection \<open>The builder\<close>

definition sagaRaceTag :: string where
  "sagaRaceTag = ''@@Saga''"

definition runWhile :: "('s, 't, 'h) heap \<Rightarrow> stage \<times> ('s, 't, 'h) heap" where
  "runWhile h =
     (let (invs, h1) = alloc h (InvariantArray []);
          (cbs, h2) = alloc h1 (CallbackArray []);
          (definition, h3) = alloc h2
             (DefinitionObj \<lparr>invariants = invs, onViolationCallbacks = cbs, saga = nothing\<rparr>)
      in ((RunWhileMonad, definition), h3))"

text \<open>
  The methods read \<open>this\<close>; a method bound to an address that holds no definition has no
  result (\<open>None\<close>). The builder never produces such a binding (\<open>build_well_formed\<close> below).
\<close>

definition saga_op ::
  "('s, 't, 'h) heap \<Rightarrow> addr \<Rightarrow> 't \<Rightarrow> (stage \<times> ('s, 't, 'h) heap) option" where
  "saga_op h this sg =
     (case get_definition h this of
        None \<Rightarrow> None
      | Some d \<Rightarrow>
          (let (definition, h1) = alloc h (DefinitionObj (d\<lparr>saga := user_saga sg\<rparr>))
           in Some ((RunWhileSagaMonad, definition), h1)))"

definition invariant ::
  "('s, 't, 'h) heap \<Rightarrow> addr \<Rightarrow> string \<Rightarrow> ('s \<Rightarrow> bool) \<Rightarrow>
     ((error + stage) \<times> ('s, 't, 'h) heap) option" where
  "invariant h this tg cl =
     (if tg = sagaRaceTag then
        Some (Inl (Error (tg @ '' is reserved. Please choose another invariant tag.'')), h)
      else
        (case get_definition h this of
           None \<Rightarrow> None
         | Some d \<Rightarrow>
             (case get_invariants h (invariants d) of
                None \<Rightarrow> None
              | Some invs \<Rightarrow>
                  if list_ex (\<lambda>i. tag i = tg) invs then
                    Some (Inl (Error (tg @ '' is a'')), h)
                  else
                    (let (arr, h1) = alloc h (InvariantArray (invs @ [\<lparr>tag = tg, clause = cl\<rparr>]));
                         (definition, h2) = alloc h1 (DefinitionObj (d\<lparr>invariants := arr\<rparr>))
                     in Some (Inr (RunWhileInvariantMonad, definition), h2)))))"

definition onViolation ::
  "('s, 't, 'h) heap \<Rightarrow> addr \<Rightarrow> 'h \<Rightarrow> (stage \<times> ('s, 't, 'h) heap) option" where
  "onViolation h this callback =
     (case get_definition h this of
        None \<Rightarrow> None
      | Some d \<Rightarrow>
          (case get_callbacks h (onViolationCallbacks d) of
             None \<Rightarrow> None
           | Some cbs \<Rightarrow>
               (let (arr, h1) = alloc h (CallbackArray (cbs @ [callback]));
                    (definition, h2) = alloc h1 (DefinitionObj (d\<lparr>onViolationCallbacks := arr\<rparr>))
                in Some ((RunWhileOnViolationMonad, definition), h2))))"

text \<open>
  A call of a builder method on a stage object. A stage has only the methods of its type;
  any other call is rejected by the type checker and has no result here.
\<close>

datatype ('s, 't, 'h) builder_call =
    Saga 't
  | Invariant string "'s \<Rightarrow> bool"
  | OnViolation 'h

fun call_method ::
  "('s, 't, 'h) heap \<Rightarrow> stage \<Rightarrow> ('s, 't, 'h) builder_call \<Rightarrow>
     ((error + stage) \<times> ('s, 't, 'h) heap) option" where
  "call_method h (RunWhileMonad, this) (Saga sg) =
     map_option (\<lambda>(st, h'). (Inr st, h')) (saga_op h this sg)"
| "call_method h (RunWhileSagaMonad, this) (Invariant tg cl) = invariant h this tg cl"
| "call_method h (RunWhileInvariantMonad, this) (Invariant tg cl) = invariant h this tg cl"
| "call_method h (RunWhileInvariantMonad, this) (OnViolation callback) =
     map_option (\<lambda>(st, h'). (Inr st, h')) (onViolation h this callback)"
| "call_method h (RunWhileOnViolationMonad, this) (OnViolation callback) =
     map_option (\<lambda>(st, h'). (Inr st, h')) (onViolation h this callback)"
| "call_method h st c = None"

subsection \<open>Effects and the generator\<close>

text \<open>
  The effect descriptions the module creates with \<open>call\<close>: \<open>call(this.saga)\<close>,
  \<open>call(observeWhile, invariant.clause)\<close>, \<open>call(callback, currentState, violations)\<close>
  and, in \<open>run\<close>, \<open>call(runInternal.bind(this))\<close>. The two arguments of a callback are
  references: to the state object that the select returned and to the array \<open>violations\<close>.
\<close>

datatype ('s, 't, 'h) call_effect =
    CallSaga "'t saga_ref"
  | CallObserveWhile "'s \<Rightarrow> bool"
  | CallCallback 'h addr addr
  | CallRunInternal addr

text \<open>
  The object a race resumes the generator with. The program only asks it \<open>key in raceResults\<close>,
  which is true of the object's own keys and of every property name it inherits through its
  prototype chain.
\<close>

record js_object =
  own :: "string list"
  inherited :: "string list"

definition in_op :: "string \<Rightarrow> js_object \<Rightarrow> bool" where
  "in_op key obj = (key \<in> set (own obj) \<or> key \<in> set (inherited obj))"

text \<open>The property names of \<open>Object.prototype\<close>, which every object literal inherits.\<close>

definition Object_prototype :: "string list" where
  "Object_prototype =
     [''constructor'', ''hasOwnProperty'', ''isPrototypeOf'', ''propertyIsEnumerable'',
      ''toLocaleString'', ''toString'', ''valueOf'', ''__proto__'',
      ''__defineGetter__'', ''__defineSetter__'', ''__lookupGetter__'', ''__lookupSetter__'']"

definition object_literal :: "string list \<Rightarrow> js_object" where
  "object_literal keys = \<lparr>own = keys, inherited = Object_prototype\<rparr>"

text \<open>
  A generator of \<open>CallEffect | RaceEffect | SelectEffect\<close>: what it yields, and how it goes
  on when it is resumed with a value.
  \<^item> A race is resumed with the result object.
  \<^item> A select is resumed with a reference to the state object; \<open>invariant.clause(currentState)\<close>
    then reads that object, and the second argument of the continuation is what the object
    holds at that moment.
  \<^item> \<open>NewArray\<close> is the array that \<open>filter(...).map(...)\<close> creates: one new object, whose
    reference the rest of the generator holds.
  \<^item> A call is resumed with a result that the program drops.
\<close>

datatype ('s, 't, 'h) gen =
    YieldRace "string \<rightharpoonup> ('s, 't, 'h) call_effect" "js_object \<Rightarrow> ('s, 't, 'h) gen"
  | YieldSelect "addr \<Rightarrow> 's \<Rightarrow> ('s, 't, 'h) gen"
  | NewArray "string list" "addr \<Rightarrow> ('s, 't, 'h) gen"
  | YieldCall "('s, 't, 'h) call_effect" "('s, 't, 'h) gen"
  | Return

definition run :: "addr \<Rightarrow> ('s, 't, 'h) call_effect" where
  "run this = CallRunInternal this"

text \<open>
  \<open>let raceDefinition = { [sagaRaceTag]: call(this.saga) }\<close>, then one spread per invariant
  that adds (or overwrites) the key \<open>invariant.tag\<close>.
\<close>

definition raceDefinition ::
  "'t saga_ref \<Rightarrow> 's Invariant list \<Rightarrow> (string \<rightharpoonup> ('s, 't, 'h) call_effect)" where
  "raceDefinition sg invs =
     fold (\<lambda>i rd. rd(tag i \<mapsto> CallObserveWhile (clause i))) invs
       [sagaRaceTag \<mapsto> CallSaga sg]"

text \<open>
  \<open>for (const callback of this.onViolationCallbacks) { yield call(callback, currentState, violations); }\<close>:
  every call passes the same two references.
\<close>

fun for_callbacks :: "'h list \<Rightarrow> addr \<Rightarrow> addr \<Rightarrow> ('s, 't, 'h) gen" where
  "for_callbacks [] currentState violations = Return"
| "for_callbacks (callback # rest) currentState violations =
     YieldCall (CallCallback callback currentState violations)
       (for_callbacks rest currentState violations)"

definition runInternal_body :: "('s, 't, 'h) config \<Rightarrow> ('s, 't, 'h) gen" where
  "runInternal_body this =
     YieldRace (raceDefinition (cfg_saga this) (cfg_invariants this))
       (\<lambda>raceResults.
          if list_ex (\<lambda>i. in_op (tag i) raceResults) (cfg_invariants this) then
            YieldSelect (\<lambda>currentState s.
              NewArray (map tag (filter (\<lambda>i. \<not> clause i s) (cfg_invariants this)))
                (\<lambda>violations. for_callbacks (cfg_callbacks this) currentState violations))
          else Return)"

definition runInternal :: "('s, 't, 'h) heap \<Rightarrow> addr \<Rightarrow> ('s, 't, 'h) gen option" where
  "runInternal h this = map_option runInternal_body (load h this)"

subsection \<open>Running a generator\<close>

text \<open>
  The objects of a run: the state object and arrays of tags. A handler holds references to
  them and may write to them.
\<close>

datatype 's obj = StateObj 's | TagArray "string list"

definition get_state :: "'s obj list \<Rightarrow> addr \<Rightarrow> 's option" where
  "get_state objs a =
     (if a < length objs then (case objs ! a of StateObj s \<Rightarrow> Some s | _ \<Rightarrow> None) else None)"

definition get_array :: "'s obj list \<Rightarrow> addr \<Rightarrow> string list option" where
  "get_array objs a =
     (if a < length objs then (case objs ! a of TagArray xs \<Rightarrow> Some xs | _ \<Rightarrow> None) else None)"

text \<open>
  How a suspended generator goes on: \<open>next(value)\<close>, \<open>throw(error)\<close>, or \<open>return()\<close> when the
  saga is cancelled. \<open>runInternal\<close> has no \<open>try\<close>, so the last two end it where it is.
\<close>

datatype 'a resumption = Next 'a | Throw error | Cancel

text \<open>
  What the module does not decide. The middleware, the task, the watchers and the handlers
  are not part of it, so how each \<open>yield\<close> is answered is a parameter of a run:
  \<^item> the answer to the race;
  \<^item> the answer to the select (the state, when there is one);
  \<^item> for the \<open>n\<close>-th call of the run, of the handler \<open>callback\<close>, which finds \<open>s\<close> in the state
    object and \<open>vs\<close> in the array: how the generator is resumed from that call, and what the
    two objects hold by then.
\<close>

record ('s, 'h) middleware =
  race_answer :: "js_object resumption"
  select_answer :: "'s resumption"
  call_answer :: "nat \<Rightarrow> 'h \<Rightarrow> 's \<Rightarrow> string list \<Rightarrow> unit resumption \<times> 's \<times> string list"

text \<open>
  What happens in a run, in order: the effects the generator yields (\<open>Raced\<close>, \<open>Selecting\<close>,
  \<open>Calling\<close>, the last with the two references it passes and with what the objects hold at
  that moment), the array it creates, how it is resumed where that is not the plain
  continuation of a race (\<open>Selected\<close> with the reference and the state, \<open>Returned\<close> from a
  call, \<open>Thrown\<close>, \<open>Cancelled\<close>), and its normal end (\<open>Done\<close>). \<open>Stuck\<close> is a call that
  passes something else than references to a state object and an array.
\<close>

datatype ('s, 't, 'h) event =
    Raced "string \<rightharpoonup> ('s, 't, 'h) call_effect"
  | Selecting
  | Selected addr 's
  | Created addr "string list"
  | Calling 'h addr addr 's "string list"
  | Returned
  | Thrown error
  | Cancelled
  | Done
  | Stuck

text \<open>
  The run of a generator against a middleware, from a store of objects and a count of the
  calls made so far.
\<close>

primrec events ::
  "('s, 'h) middleware \<Rightarrow> ('s, 't, 'h) gen \<Rightarrow> 's obj list \<Rightarrow> nat \<Rightarrow> ('s, 't, 'h) event list"
  where
  "events m (YieldRace rd k) = (\<lambda>objs n.
     Raced rd #
     (case race_answer m of
        Next raceResults \<Rightarrow> events m (k raceResults) objs n
      | Throw e \<Rightarrow> [Thrown e]
      | Cancel \<Rightarrow> [Cancelled]))"
| "events m (YieldSelect k) = (\<lambda>objs n.
     Selecting #
     (case select_answer m of
        Next s \<Rightarrow> Selected (length objs) s # events m (k (length objs) s) (objs @ [StateObj s]) n
      | Throw e \<Rightarrow> [Thrown e]
      | Cancel \<Rightarrow> [Cancelled]))"
| "events m (NewArray xs k) = (\<lambda>objs n.
     Created (length objs) xs # events m (k (length objs)) (objs @ [TagArray xs]) n)"
| "events m (YieldCall c k) = (\<lambda>objs n.
     (case c of
        CallCallback callback a v \<Rightarrow>
          (case (get_state objs a, get_array objs v) of
             (Some s, Some vs) \<Rightarrow>
               Calling callback a v s vs #
               (case call_answer m n callback s vs of
                  (Next u, s', vs') \<Rightarrow>
                    Returned # events m k (objs[a := StateObj s', v := TagArray vs']) (Suc n)
                | (Throw e, w) \<Rightarrow> [Thrown e]
                | (Cancel, w) \<Rightarrow> [Cancelled])
           | _ \<Rightarrow> [Stuck])
      | _ \<Rightarrow> [Stuck]))"
| "events m Return = (\<lambda>objs n. [Done])"

text \<open>The calls in a list of events: the handler, the two references, what the objects held.\<close>

fun call_of :: "('s, 't, 'h) event \<Rightarrow> ('h \<times> (addr \<times> addr) \<times> ('s \<times> string list)) option" where
  "call_of (Calling callback a v s vs) = Some (callback, (a, v), (s, vs))"
| "call_of e = None"

definition calls ::
  "('s, 't, 'h) event list \<Rightarrow> ('h \<times> (addr \<times> addr) \<times> ('s \<times> string list)) list" where
  "calls evs = List.map_filter call_of evs"

text \<open>
  What the loop over the callbacks does when the state object holds \<open>s\<close> and the array
  \<open>vs\<close>, told by the contents of the two objects.
\<close>

fun loop_events ::
  "('s, 'h) middleware \<Rightarrow> addr \<Rightarrow> addr \<Rightarrow> 'h list \<Rightarrow> nat \<Rightarrow> 's \<Rightarrow> string list \<Rightarrow>
     ('s, 't, 'h) event list" where
  "loop_events m a v [] n s vs = [Done]"
| "loop_events m a v (callback # rest) n s vs =
     Calling callback a v s vs #
     (case call_answer m n callback s vs of
        (Next u, s', vs') \<Rightarrow> Returned # loop_events m a v rest (Suc n) s' vs'
      | (Throw e, w) \<Rightarrow> [Thrown e]
      | (Cancel, w) \<Rightarrow> [Cancelled])"

subsection \<open>Fluent chains\<close>

text \<open>
  \<open>runWhile().m1(...).m2(...)...\<close>: every call is made on the stage the previous call
  returned, starting from an empty store. A call that throws ends the chain with its error.
\<close>

fun build_from ::
  "('s, 't, 'h) heap \<Rightarrow> stage \<Rightarrow> ('s, 't, 'h) builder_call list \<Rightarrow>
     ((error + stage) \<times> ('s, 't, 'h) heap) option" where
  "build_from h st [] = Some (Inr st, h)"
| "build_from h st (c # cs) =
     (case call_method h st c of
        None \<Rightarrow> None
      | Some (Inl e, h') \<Rightarrow> Some (Inl e, h')
      | Some (Inr st', h') \<Rightarrow> build_from h' st' cs)"

definition build ::
  "('s, 't, 'h) builder_call list \<Rightarrow> ((error + stage) \<times> ('s, 't, 'h) heap) option" where
  "build cs = (case runWhile [] of (st, h) \<Rightarrow> build_from h st cs)"

text \<open>
  \<open>.run()\<close> on a stage object: only \<open>RunWhileSagaMonad\<close> and \<open>RunWhileOnViolationMonad\<close> have
  the method.
\<close>

fun call_run :: "stage \<Rightarrow> ('s, 't, 'h) call_effect option" where
  "call_run (RunWhileSagaMonad, this) = Some (run this)"
| "call_run (RunWhileOnViolationMonad, this) = Some (run this)"
| "call_run st = None"

text \<open>
  \<open>runWhile().m1(...)...mk(...).run()\<close>, and the generator of the effect then run against a
  middleware, with no object and no call yet.
\<close>

definition run_chain ::
  "('s, 't, 'h) builder_call list \<Rightarrow> ('s, 'h) middleware \<Rightarrow> ('s, 't, 'h) event list option" where
  "run_chain cs m =
     (case build cs of
        Some (Inr st, h) \<Rightarrow>
          (case (call_run st :: ('s, 't, 'h) call_effect option) of
             Some (CallRunInternal this) \<Rightarrow> map_option (\<lambda>g. events m g [] 0) (runInternal h this)
           | _ \<Rightarrow> None)
      | _ \<Rightarrow> None)"

text \<open>The configuration a successful builder call leaves in the stage it returns.\<close>

fun config_after ::
  "('s, 't, 'h) builder_call \<Rightarrow> ('s, 't, 'h) config \<Rightarrow> ('s, 't, 'h) config" where
  "config_after (Saga sg) c = c\<lparr>cfg_saga := user_saga sg\<rparr>"
| "config_after (Invariant tg cl) c =
     c\<lparr>cfg_invariants := cfg_invariants c @ [\<lparr>tag = tg, clause = cl\<rparr>]\<rparr>"
| "config_after (OnViolation callback) c = c\<lparr>cfg_callbacks := cfg_callbacks c @ [callback]\<rparr>"

text \<open>
  The data-model invariant of a definition: tags are unique, and none is the reserved tag.
\<close>

definition well_formed :: "('s, 't, 'h) config \<Rightarrow> bool" where
  "well_formed c \<longleftrightarrow>
     distinct (map tag (cfg_invariants c)) \<and> sagaRaceTag \<notin> set (map tag (cfg_invariants c))"

subsection \<open>Example chains\<close>

definition at_least :: "int \<Rightarrow> int \<Rightarrow> bool" where
  "at_least n s = (n \<le> s)"

definition always :: "int \<Rightarrow> bool" where
  "always s = True"

text \<open>
  Three invariants over an integer state and two handlers:
  \<open>runWhile().saga(T).invariant('A', s => 0 <= s).invariant('B', s => 5 <= s)
  .invariant('C', s => 10 <= s).onViolation(H1).onViolation(H2)\<close>.
\<close>

definition example_invariants :: "int Invariant list" where
  "example_invariants =
     [\<lparr>tag = ''A'', clause = at_least 0\<rparr>,
      \<lparr>tag = ''B'', clause = at_least 5\<rparr>,
      \<lparr>tag = ''C'', clause = at_least 10\<rparr>]"

definition example_invariant_calls :: "(int, nat, nat) builder_call list" where
  "example_invariant_calls =
     [Saga 0, Invariant ''A'' (at_least 0), Invariant ''B'' (at_least 5),
      Invariant ''C'' (at_least 10)]"

definition example_calls :: "(int, nat, nat) builder_call list" where
  "example_calls = example_invariant_calls @ [OnViolation 1, OnViolation 2]"

definition example_config :: "(int, nat, nat) config" where
  "example_config =
     \<lparr>cfg_saga = user_saga 0, cfg_invariants = example_invariants, cfg_callbacks = [1, 2]\<rparr>"

text \<open>A task alone: \<open>runWhile().saga(T)\<close>.\<close>

definition task_only_calls :: "(int, nat, nat) builder_call list" where
  "task_only_calls = [Saga 0]"

text \<open>
  One invariant that always holds, under a tag that is also a property name of
  \<open>Object.prototype\<close>:
  \<open>runWhile().saga(T).invariant('toString', s => true).onViolation(H7)\<close>.
\<close>

definition toString_calls :: "(int, nat, nat) builder_call list" where
  "toString_calls = [Saga 0, Invariant ''toString'' always, OnViolation 7]"

text \<open>Chains that register the reserved tag, and a tag that is already there.\<close>

definition reserved_calls :: "(int, nat, nat) builder_call list" where
  "reserved_calls = [Saga 0, Invariant ''@@Saga'' always, Invariant ''A'' always]"

definition repeated_calls :: "(int, nat, nat) builder_call list" where
  "repeated_calls = [Saga 0, Invariant ''A'' always, Invariant ''A'' always, Invariant ''B'' always]"

text \<open>
  Handlers: all of them return; the handler called first does \<open>violations.push('X')\<close> and
  returns; the handler called first throws.
\<close>

definition all_return :: "nat \<Rightarrow> nat \<Rightarrow> int \<Rightarrow> string list \<Rightarrow> unit resumption \<times> int \<times> string list" where
  "all_return n callback s vs = (Next (), s, vs)"

definition first_pushes :: "nat \<Rightarrow> nat \<Rightarrow> int \<Rightarrow> string list \<Rightarrow> unit resumption \<times> int \<times> string list" where
  "first_pushes n callback s vs = (Next (), s, if n = 0 then vs @ [''X''] else vs)"

definition first_throws :: "nat \<Rightarrow> nat \<Rightarrow> int \<Rightarrow> string list \<Rightarrow> unit resumption \<times> int \<times> string list" where
  "first_throws n callback s vs = (if n = 0 then Throw (Error ''boom'') else Next (), s, vs)"

text \<open>A race answered with the result \<open>r\<close>, a select answered with the state \<open>s\<close>, handlers \<open>f\<close>.\<close>

definition answers ::
  "js_object \<Rightarrow> int \<Rightarrow> (nat \<Rightarrow> nat \<Rightarrow> int \<Rightarrow> string list \<Rightarrow> unit resumption \<times> int \<times> string list) \<Rightarrow>
     (int, nat) middleware" where
  "answers r s f = \<lparr>race_answer = Next r, select_answer = Next s, call_answer = f\<rparr>"

section \<open>Lemmas\<close>

subsection \<open>The store only grows\<close>

lemma lookup_append: "a < length h \<Longrightarrow> lookup (h @ ext) a = lookup h a"
  by (simp add: lookup_def nth_append)

lemma lookup_Some_less: "lookup h a = Some c \<Longrightarrow> a < length h"
  by (simp add: lookup_def split: if_splits)

lemma get_definition_append:
  "get_definition h a = Some d \<Longrightarrow> get_definition (h @ ext) a = Some d"
  by (auto simp: get_definition_def lookup_def nth_append split: if_splits option.splits cell.splits)

lemma get_invariants_append:
  "get_invariants h a = Some xs \<Longrightarrow> get_invariants (h @ ext) a = Some xs"
  by (auto simp: get_invariants_def lookup_def nth_append split: if_splits option.splits cell.splits)

lemma get_callbacks_append:
  "get_callbacks h a = Some xs \<Longrightarrow> get_callbacks (h @ ext) a = Some xs"
  by (auto simp: get_callbacks_def lookup_def nth_append split: if_splits option.splits cell.splits)

lemma load_append: "load h a = Some c \<Longrightarrow> load (h @ ext) a = Some c"
  by (auto simp: load_def get_definition_append get_invariants_append get_callbacks_append
      split: option.splits)

lemma load_SomeD:
  "load h a = Some c \<Longrightarrow>
     \<exists>d. get_definition h a = Some d \<and> saga d = cfg_saga c
       \<and> get_invariants h (invariants d) = Some (cfg_invariants c)
       \<and> get_callbacks h (onViolationCallbacks d) = Some (cfg_callbacks c)"
  by (auto simp: load_def split: option.splits)

lemma load_Some_less: "load h a = Some c \<Longrightarrow> a < length h"
  by (auto simp: load_def get_definition_def dest: lookup_Some_less split: option.splits cell.splits)

lemma get_definition_fresh: "get_definition (h @ [DefinitionObj d]) (length h) = Some d"
  by (simp add: get_definition_def lookup_def)

subsection \<open>What each builder method returns\<close>

lemma saga_op_eq:
  "get_definition h this = Some d \<Longrightarrow>
     saga_op h this sg =
       Some ((RunWhileSagaMonad, length h), h @ [DefinitionObj (d\<lparr>saga := user_saga sg\<rparr>)])"
  by (simp add: saga_op_def alloc_def)

lemma invariant_duplicate:
  "get_definition h this = Some d \<Longrightarrow> get_invariants h (invariants d) = Some invs \<Longrightarrow>
   tg \<noteq> sagaRaceTag \<Longrightarrow> tg \<in> tag ` set invs \<Longrightarrow>
     invariant h this tg cl = Some (Inl (Error (tg @ '' is a'')), h)"
  by (auto simp: invariant_def list_ex_iff)

lemma invariant_ok:
  "get_definition h this = Some d \<Longrightarrow> get_invariants h (invariants d) = Some invs \<Longrightarrow>
   tg \<noteq> sagaRaceTag \<Longrightarrow> tg \<notin> tag ` set invs \<Longrightarrow>
     invariant h this tg cl =
       Some (Inr (RunWhileInvariantMonad, Suc (length h)),
             h @ [InvariantArray (invs @ [\<lparr>tag = tg, clause = cl\<rparr>]),
                  DefinitionObj (d\<lparr>invariants := length h\<rparr>)])"
  by (auto simp: invariant_def list_ex_iff alloc_def)

lemma onViolation_eq:
  "get_definition h this = Some d \<Longrightarrow> get_callbacks h (onViolationCallbacks d) = Some cbs \<Longrightarrow>
     onViolation h this callback =
       Some ((RunWhileOnViolationMonad, Suc (length h)),
             h @ [CallbackArray (cbs @ [callback]),
                  DefinitionObj (d\<lparr>onViolationCallbacks := length h\<rparr>)])"
  by (simp add: onViolation_def alloc_def)

lemma error_messages_differ:
  "Error (sagaRaceTag @ '' is reserved. Please choose another invariant tag.'') \<noteq> Error (tg @ '' is a'')"
proof
  assume "Error (sagaRaceTag @ '' is reserved. Please choose another invariant tag.'') = Error (tg @ '' is a'')"
  then have "last (sagaRaceTag @ '' is reserved. Please choose another invariant tag.'') = last (tg @ '' is a'')"
    by simp
  then show False by simp
qed

lemma saga_op_success:
  assumes "load h this = Some c"
  shows "\<exists>ext. saga_op h this sg = Some ((RunWhileSagaMonad, length h), h @ ext)
     \<and> load (h @ ext) (length h) = Some (c\<lparr>cfg_saga := user_saga sg\<rparr>)"
proof -
  from load_SomeD [OF assms] obtain d where d: "get_definition h this = Some d"
    and s: "saga d = cfg_saga c"
    and i: "get_invariants h (invariants d) = Some (cfg_invariants c)"
    and k: "get_callbacks h (onViolationCallbacks d) = Some (cfg_callbacks c)"
    by blast
  let ?ext = "[DefinitionObj (d\<lparr>saga := user_saga sg\<rparr>)]"
  have "load (h @ ?ext) (length h) = Some (c\<lparr>cfg_saga := user_saga sg\<rparr>)"
    using get_invariants_append [OF i, of ?ext] get_callbacks_append [OF k, of ?ext]
    by (simp add: load_def get_definition_fresh)
  with saga_op_eq [OF d, of sg] show ?thesis by blast
qed

lemma invariant_success:
  assumes "load h this = Some c" and "tg \<noteq> sagaRaceTag" and "tg \<notin> tag ` set (cfg_invariants c)"
  shows "\<exists>ext. invariant h this tg cl = Some (Inr (RunWhileInvariantMonad, Suc (length h)), h @ ext)
     \<and> load (h @ ext) (Suc (length h)) =
         Some (c\<lparr>cfg_invariants := cfg_invariants c @ [\<lparr>tag = tg, clause = cl\<rparr>]\<rparr>)"
proof -
  from load_SomeD [OF assms(1)] obtain d where d: "get_definition h this = Some d"
    and s: "saga d = cfg_saga c"
    and i: "get_invariants h (invariants d) = Some (cfg_invariants c)"
    and k: "get_callbacks h (onViolationCallbacks d) = Some (cfg_callbacks c)"
    by blast
  let ?ext = "[InvariantArray (cfg_invariants c @ [\<lparr>tag = tg, clause = cl\<rparr>]),
               DefinitionObj (d\<lparr>invariants := length h\<rparr>)]"
  have g: "get_definition (h @ ?ext) (Suc (length h)) = Some (d\<lparr>invariants := length h\<rparr>)"
    by (simp add: get_definition_def lookup_def nth_append)
  have a: "get_invariants (h @ ?ext) (length h) = Some (cfg_invariants c @ [\<lparr>tag = tg, clause = cl\<rparr>])"
    by (simp add: get_invariants_def lookup_def nth_append)
  have "load (h @ ?ext) (Suc (length h)) =
      Some (c\<lparr>cfg_invariants := cfg_invariants c @ [\<lparr>tag = tg, clause = cl\<rparr>]\<rparr>)"
    using get_callbacks_append [OF k, of ?ext] s
    by (simp add: load_def g a)
  with invariant_ok [OF d i assms(2,3), of cl] show ?thesis by blast
qed

lemma onViolation_success:
  assumes "load h this = Some c"
  shows "\<exists>ext. onViolation h this cb = Some ((RunWhileOnViolationMonad, Suc (length h)), h @ ext)
     \<and> load (h @ ext) (Suc (length h)) = Some (c\<lparr>cfg_callbacks := cfg_callbacks c @ [cb]\<rparr>)"
proof -
  from load_SomeD [OF assms(1)] obtain d where d: "get_definition h this = Some d"
    and s: "saga d = cfg_saga c"
    and i: "get_invariants h (invariants d) = Some (cfg_invariants c)"
    and k: "get_callbacks h (onViolationCallbacks d) = Some (cfg_callbacks c)"
    by blast
  let ?ext = "[CallbackArray (cfg_callbacks c @ [cb]),
               DefinitionObj (d\<lparr>onViolationCallbacks := length h\<rparr>)]"
  have g: "get_definition (h @ ?ext) (Suc (length h)) = Some (d\<lparr>onViolationCallbacks := length h\<rparr>)"
    by (simp add: get_definition_def lookup_def nth_append)
  have a: "get_callbacks (h @ ?ext) (length h) = Some (cfg_callbacks c @ [cb])"
    by (simp add: get_callbacks_def lookup_def nth_append)
  have "load (h @ ?ext) (Suc (length h)) = Some (c\<lparr>cfg_callbacks := cfg_callbacks c @ [cb]\<rparr>)"
    using get_invariants_append [OF i, of ?ext] s
    by (simp add: load_def g a)
  with onViolation_eq [OF d k, of cb] show ?thesis by blast
qed

lemma invariant_failure:
  assumes "load h this = Some c"
  shows "tg = sagaRaceTag \<Longrightarrow> invariant h this tg cl =
      Some (Inl (Error (tg @ '' is reserved. Please choose another invariant tag.'')), h)"
    and "tg \<noteq> sagaRaceTag \<Longrightarrow> tg \<in> tag ` set (cfg_invariants c) \<Longrightarrow>
      invariant h this tg cl = Some (Inl (Error (tg @ '' is a'')), h)"
proof -
  show "tg = sagaRaceTag \<Longrightarrow> invariant h this tg cl =
      Some (Inl (Error (tg @ '' is reserved. Please choose another invariant tag.'')), h)"
    by (simp add: invariant_def)
  from load_SomeD [OF assms(1)] obtain d where d: "get_definition h this = Some d"
    and i: "get_invariants h (invariants d) = Some (cfg_invariants c)"
    by blast
  show "tg \<noteq> sagaRaceTag \<Longrightarrow> tg \<in> tag ` set (cfg_invariants c) \<Longrightarrow>
      invariant h this tg cl = Some (Inl (Error (tg @ '' is a'')), h)"
    using invariant_duplicate [OF d i] by blast
qed

lemma invariant_Inr_iff:
  assumes "load h this = Some c"
  shows "(\<exists>st h'. invariant h this tg cl = Some (Inr st, h'))
     \<longleftrightarrow> tg \<noteq> sagaRaceTag \<and> tg \<notin> tag ` set (cfg_invariants c)"
proof
  assume "\<exists>st h'. invariant h this tg cl = Some (Inr st, h')"
  then obtain st h' where r: "invariant h this tg cl = Some (Inr st, h')" by blast
  show "tg \<noteq> sagaRaceTag \<and> tg \<notin> tag ` set (cfg_invariants c)"
  proof (rule ccontr)
    assume "\<not> (tg \<noteq> sagaRaceTag \<and> tg \<notin> tag ` set (cfg_invariants c))"
    then consider "tg = sagaRaceTag" | "tg \<noteq> sagaRaceTag" "tg \<in> tag ` set (cfg_invariants c)"
      by blast
    then show False
    proof cases
      case 1
      from invariant_failure(1) [OF assms 1, of cl] r show False by simp
    next
      case 2
      from invariant_failure(2) [OF assms 2, of cl] r show False by simp
    qed
  qed
next
  assume "tg \<noteq> sagaRaceTag \<and> tg \<notin> tag ` set (cfg_invariants c)"
  then have "tg \<noteq> sagaRaceTag" and "tg \<notin> tag ` set (cfg_invariants c)" by simp_all
  from invariant_success [OF assms this, of cl] show "\<exists>st h'. invariant h this tg cl = Some (Inr st, h')"
    by blast
qed

subsection \<open>Calls on stages\<close>

lemma call_method_extends: "call_method h st bc = Some (r, h') \<Longrightarrow> \<exists>ext. h' = h @ ext"
  by (cases "(h, st, bc)" rule: call_method.cases)
    (auto simp: saga_op_def invariant_def onViolation_def alloc_def
      split: option.splits if_splits)

lemma call_method_keeps_definitions:
  assumes "call_method h st bc = Some (r, h')" and "load h b = Some c"
  shows "load h' b = Some c" and "runInternal h' b = runInternal h b"
proof -
  from call_method_extends [OF assms(1)] obtain ext where "h' = h @ ext" ..
  with load_append [OF assms(2), of ext] show "load h' b = Some c" by simp
  with assms(2) show "runInternal h' b = runInternal h b" by (simp add: runInternal_def)
qed

lemma call_method_stage:
  assumes "load h (bound_this st) = Some c"
    and "call_method h st bc = Some (Inr st1, h1)"
  shows "bound_this st1 < length h1" and "length h \<le> bound_this st1"
    and "load h1 (bound_this st1) = Some (config_after bc c)"
proof -
  have "bound_this st1 < length h1 \<and> length h \<le> bound_this st1
      \<and> load h1 (bound_this st1) = Some (config_after bc c)"
  proof (cases "(h, st, bc)" rule: call_method.cases)
    case (1 h0 this sg)
    with assms saga_op_success [of h this c sg] show ?thesis
      by (auto simp: bound_this_def dest: load_Some_less)
  next
    case (2 h0 this tg cl)
    with assms have l: "load h this = Some c"
      and r: "invariant h this tg cl = Some (Inr st1, h1)"
      by (simp_all add: bound_this_def)
    from invariant_Inr_iff [OF l, of tg cl] r
    have "tg \<noteq> sagaRaceTag" and "tg \<notin> tag ` set (cfg_invariants c)" by blast+
    from invariant_success [OF l this, of cl] r 2 show ?thesis
      by (auto simp: bound_this_def dest: load_Some_less)
  next
    case (3 h0 this tg cl)
    with assms have l: "load h this = Some c"
      and r: "invariant h this tg cl = Some (Inr st1, h1)"
      by (simp_all add: bound_this_def)
    from invariant_Inr_iff [OF l, of tg cl] r
    have "tg \<noteq> sagaRaceTag" and "tg \<notin> tag ` set (cfg_invariants c)" by blast+
    from invariant_success [OF l this, of cl] r 3 show ?thesis
      by (auto simp: bound_this_def dest: load_Some_less)
  next
    case (4 h0 this cb)
    with assms onViolation_success [of h this c cb] show ?thesis
      by (auto simp: bound_this_def dest: load_Some_less)
  next
    case (5 h0 this cb)
    with assms onViolation_success [of h this c cb] show ?thesis
      by (auto simp: bound_this_def dest: load_Some_less)
  qed (use assms(2) in simp_all)
  then show "bound_this st1 < length h1" and "length h \<le> bound_this st1"
    and "load h1 (bound_this st1) = Some (config_after bc c)"
    by simp_all
qed

lemma call_method_again:
  assumes "load h (bound_this st) = Some c" and "load h' (bound_this st) = Some c"
    and "call_method h st bc = Some (Inr st1, h1)"
  shows "\<exists>st2 h2. call_method h' st bc = Some (Inr st2, h2) \<and> fst st2 = fst st1"
proof (cases "(h, st, bc)" rule: call_method.cases)
  case (1 h0 this sg)
  with assms saga_op_success [of h this c sg] saga_op_success [of h' this c sg] show ?thesis
    by (auto simp: bound_this_def)
next
  case (2 h0 this tg cl)
  with assms have l: "load h this = Some c" and l': "load h' this = Some c"
    and r: "invariant h this tg cl = Some (Inr st1, h1)"
    by (simp_all add: bound_this_def)
  from invariant_Inr_iff [OF l, of tg cl] r
  have t: "tg \<noteq> sagaRaceTag" "tg \<notin> tag ` set (cfg_invariants c)" by blast+
  from invariant_success [OF l t, of cl] invariant_success [OF l' t, of cl] r 2 show ?thesis
    by auto
next
  case (3 h0 this tg cl)
  with assms have l: "load h this = Some c" and l': "load h' this = Some c"
    and r: "invariant h this tg cl = Some (Inr st1, h1)"
    by (simp_all add: bound_this_def)
  from invariant_Inr_iff [OF l, of tg cl] r
  have t: "tg \<noteq> sagaRaceTag" "tg \<notin> tag ` set (cfg_invariants c)" by blast+
  from invariant_success [OF l t, of cl] invariant_success [OF l' t, of cl] r 3 show ?thesis
    by auto
next
  case (4 h0 this cb)
  with assms onViolation_success [of h this c cb] onViolation_success [of h' this c cb]
  show ?thesis by (auto simp: bound_this_def)
next
  case (5 h0 this cb)
  with assms onViolation_success [of h this c cb] onViolation_success [of h' this c cb]
  show ?thesis by (auto simp: bound_this_def)
qed (use assms(3) in simp_all)

lemma call_method_well_formed:
  assumes "load h (bound_this st) = Some c" and "well_formed c"
    and "call_method h st bc = Some (Inr st1, h1)"
  shows "well_formed (config_after bc c)"
proof (cases bc)
  case (Saga sg)
  with assms(2) show ?thesis by (simp add: well_formed_def)
next
  case (Invariant tg cl)
  with assms(3) have "invariant h (bound_this st) tg cl = Some (Inr st1, h1)"
    by (cases "(h, st, bc)" rule: call_method.cases) (simp_all add: bound_this_def)
  with invariant_Inr_iff [OF assms(1), of tg cl]
  have "tg \<noteq> sagaRaceTag" and "tg \<notin> tag ` set (cfg_invariants c)" by blast+
  with assms(2) Invariant show ?thesis
    by (auto simp: well_formed_def)
next
  case (OnViolation cb)
  with assms(2) show ?thesis by (simp add: well_formed_def)
qed

lemma build_from_well_formed:
  "load h (bound_this st) = Some c \<Longrightarrow> well_formed c \<Longrightarrow>
   build_from h st cs = Some (Inr st', h') \<Longrightarrow>
     \<exists>c'. load h' (bound_this st') = Some c' \<and> well_formed c'"
proof (induction cs arbitrary: h st c)
  case Nil
  then show ?case by auto
next
  case (Cons bc cs)
  from Cons.prems(3) obtain st1 h1 where r: "call_method h st bc = Some (Inr st1, h1)"
    and b: "build_from h1 st1 cs = Some (Inr st', h')"
    by (auto split: option.splits sum.splits prod.splits)
  from call_method_stage(3) [OF Cons.prems(1) r] call_method_well_formed [OF Cons.prems(1,2) r]
    Cons.IH [OF _ _ b]
  show ?case by blast
qed

lemma build_well_formed:
  assumes "build cs = Some (Inr st, h)"
  shows "\<exists>c. load h (bound_this st) = Some c \<and> well_formed c"
proof -
  let ?h0 = "snd (runWhile []) :: ('a, 'b, 'c) heap"
  let ?st0 = "fst (runWhile ([] :: ('a, 'b, 'c) heap))"
  let ?c0 = "\<lparr>cfg_saga = nothing, cfg_invariants = [], cfg_callbacks = []\<rparr> :: ('a, 'b, 'c) config"
  have l: "load ?h0 (bound_this ?st0) = Some ?c0"
    by (simp add: runWhile_def alloc_def load_def get_definition_def get_invariants_def
        get_callbacks_def lookup_def bound_this_def)
  have w: "well_formed ?c0" by (simp add: well_formed_def)
  from assms have "build_from ?h0 ?st0 cs = Some (Inr st, h)"
    by (simp add: build_def split: prod.splits)
  from build_from_well_formed [OF l w this] show ?thesis .
qed

subsection \<open>What the generator does\<close>

lemma runInternal_load: "load h this = Some c \<Longrightarrow> runInternal h this = Some (runInternal_body c)"
  by (simp add: runInternal_def)

lemma won_by_invariant:
  "\<exists>i \<in> set invs. tag i \<in> set (own r) \<Longrightarrow> list_ex (\<lambda>i. in_op (tag i) r) invs"
  by (auto simp: list_ex_iff in_op_def)

lemma objects_after_call:
  assumes "get_state objs a = Some s" and "get_array objs v = Some vs"
  shows "get_state (objs[a := StateObj s', v := TagArray vs']) a = Some s'"
    and "get_array (objs[a := StateObj s', v := TagArray vs']) v = Some vs'"
proof -
  from assms have "a < length objs" and "v < length objs" and "a \<noteq> v"
    by (auto simp: get_state_def get_array_def split: if_splits obj.splits)
  then show "get_state (objs[a := StateObj s', v := TagArray vs']) a = Some s'"
    and "get_array (objs[a := StateObj s', v := TagArray vs']) v = Some vs'"
    by (simp_all add: get_state_def get_array_def)
qed

lemma events_for_callbacks:
  "get_state objs a = Some s \<Longrightarrow> get_array objs v = Some vs \<Longrightarrow>
     events m (for_callbacks cbs a v) objs n = loop_events m a v cbs n s vs"
proof (induction cbs arbitrary: objs n s vs)
  case Nil
  show ?case by simp
next
  case (Cons cb cbs)
  obtain r s' vs' where r: "call_answer m n cb s vs = (r, s', vs')"
    by (cases "call_answer m n cb s vs") auto
  show ?case
  proof (cases r)
    case (Next u)
    from Cons.IH [OF objects_after_call [OF Cons.prems, of s' vs']] Cons.prems r Next
    show ?thesis by simp
  next
    case (Throw e)
    with Cons.prems r show ?thesis by simp
  next
    case Cancel
    with Cons.prems r show ?thesis by simp
  qed
qed

lemma events_runInternal_body:
  "events m (runInternal_body c) objs n =
     Raced (raceDefinition (cfg_saga c) (cfg_invariants c)) #
     (case race_answer m of
        Next r \<Rightarrow>
          if list_ex (\<lambda>i. in_op (tag i) r) (cfg_invariants c) then
            Selecting #
            (case select_answer m of
               Next s \<Rightarrow>
                 Selected (length objs) s #
                 Created (Suc (length objs)) (map tag (filter (\<lambda>i. \<not> clause i s) (cfg_invariants c))) #
                 loop_events m (length objs) (Suc (length objs)) (cfg_callbacks c) n s
                   (map tag (filter (\<lambda>i. \<not> clause i s) (cfg_invariants c)))
             | Throw e \<Rightarrow> [Thrown e]
             | Cancel \<Rightarrow> [Cancelled])
          else [Done]
      | Throw e \<Rightarrow> [Thrown e]
      | Cancel \<Rightarrow> [Cancelled])"
proof -
  have h: "events m (for_callbacks cbs (length objs) (Suc (length objs)))
          (objs @ [StateObj s, TagArray vs]) n =
        loop_events m (length objs) (Suc (length objs)) cbs n s vs" for cbs s vs
    by (rule events_for_callbacks) (simp_all add: get_state_def get_array_def nth_append)
  show ?thesis
    by (simp add: runInternal_body_def h split: resumption.splits)
qed

lemma calls_simps:
  "calls [] = []"
  "calls (Calling cb a v s vs # evs) = (cb, (a, v), (s, vs)) # calls evs"
  "calls (Returned # evs) = calls evs"
  "calls (Thrown e # evs) = calls evs"
  "calls (Cancelled # evs) = calls evs"
  "calls (Done # evs) = calls evs"
  by (simp_all add: calls_def)

lemma loop_calls_in_order:
  "map fst (calls (loop_events m a v cbs n s vs :: ('s, 't, 'h) event list)) =
     take (length (calls (loop_events m a v cbs n s vs :: ('s, 't, 'h) event list))) cbs"
  by (induction cbs arbitrary: n s vs)
    (auto simp: calls_simps split: prod.splits resumption.splits)

lemma loop_calls_references:
  "x \<in> set (calls (loop_events m a v cbs n s vs)) \<Longrightarrow> fst (snd x) = (a, v)"
  by (induction cbs arbitrary: n s vs)
    (auto simp: calls_simps split: prod.splits resumption.splits)

lemma loop_all_return:
  "\<forall>n cb s vs. fst (call_answer m n cb s vs) = Next () \<Longrightarrow>
     map fst (calls (loop_events m a v cbs n s vs :: ('s, 't, 'h) event list)) = cbs
     \<and> last (loop_events m a v cbs n s vs :: ('s, 't, 'h) event list) = Done"
proof (induction cbs arbitrary: n s vs)
  case Nil
  show ?case by (simp add: calls_simps)
next
  case (Cons cb cbs)
  from Cons.prems have "fst (call_answer m n cb s vs) = Next ()" by blast
  then obtain s' vs' where "call_answer m n cb s vs = (Next (), s', vs')"
    by (cases "call_answer m n cb s vs") auto
  with Cons.IH [OF Cons.prems, of "Suc n" s' vs'] show ?case
    by (cases cbs) (auto simp: calls_simps split: prod.splits resumption.splits)
qed

lemma loop_array_unwritten:
  "\<forall>n cb s vs. snd (snd (call_answer m n cb s vs)) = vs \<Longrightarrow>
   x \<in> set (calls (loop_events m a v cbs n s vs)) \<Longrightarrow> snd (snd (snd x)) = vs"
proof (induction cbs arbitrary: n s vs)
  case Nil
  then show ?case by (simp add: calls_simps)
next
  case (Cons cb cbs)
  from Cons.prems(1) have w: "snd (snd (call_answer m n cb s vs)) = vs" by blast
  show ?case
  proof (cases "call_answer m n cb s vs")
    case (fields r s' vs')
    with w have "vs' = vs" by simp
    with Cons.IH [OF Cons.prems(1), of "Suc n" s' vs] Cons.prems(2) fields show ?thesis
      by (cases r) (auto simp: calls_simps)
  qed
qed

lemma loop_state_unwritten:
  "\<forall>n cb s vs. fst (snd (call_answer m n cb s vs)) = s \<Longrightarrow>
   x \<in> set (calls (loop_events m a v cbs n s vs)) \<Longrightarrow> fst (snd (snd x)) = s"
proof (induction cbs arbitrary: n s vs)
  case Nil
  then show ?case by (simp add: calls_simps)
next
  case (Cons cb cbs)
  from Cons.prems(1) have w: "fst (snd (call_answer m n cb s vs)) = s" by blast
  show ?case
  proof (cases "call_answer m n cb s vs")
    case (fields r s' vs')
    with w have "s' = s" by simp
    with Cons.IH [OF Cons.prems(1), of "Suc n" s vs'] Cons.prems(2) fields show ?thesis
      by (cases r) (auto simp: calls_simps)
  qed
qed

lemma loop_first_call:
  "cbs \<noteq> [] \<Longrightarrow> hd (loop_events m a v cbs n s vs) = Calling (hd cbs) a v s vs"
  by (cases cbs) simp_all

lemma loop_no_read_or_array:
  "count_list (loop_events m a v cbs n s vs :: ('s, 't, 'h) event list) Selecting = 0"
  "Selected a' s' \<notin> set (loop_events m a v cbs n s vs :: ('s, 't, 'h) event list)"
  "Created v' vs' \<notin> set (loop_events m a v cbs n s vs :: ('s, 't, 'h) event list)"
  "Stuck \<notin> set (loop_events m a v cbs n s vs :: ('s, 't, 'h) event list)"
  by (induction cbs arbitrary: n s vs) (auto split: prod.splits resumption.splits)

lemma loop_call_after_return:
  "0 < i \<Longrightarrow> i < length (loop_events m a v cbs n s vs :: ('s, 't, 'h) event list) \<Longrightarrow>
   call_of (loop_events m a v cbs n s vs ! i :: ('s, 't, 'h) event) \<noteq> None \<Longrightarrow>
     (loop_events m a v cbs n s vs :: ('s, 't, 'h) event list) ! (i - 1) = Returned"
proof (induction cbs arbitrary: i n s vs)
  case Nil
  then show ?case by simp
next
  case (Cons cb cbs)
  obtain r s' vs' where r: "call_answer m n cb s vs = (r, s', vs')"
    by (cases "call_answer m n cb s vs") auto
  show ?case
  proof (cases r)
    case (Next u)
    let ?L = "loop_events m a v cbs (Suc n) s' vs' :: ('s, 't, 'h) event list"
    from r Next have e: "loop_events m a v (cb # cbs) n s vs = Calling cb a v s vs # Returned # ?L"
      by simp
    note p = Cons.prems [unfolded e]
    have "(Calling cb a v s vs # Returned # ?L) ! (i - 1) = Returned"
    proof (cases "i = 1 \<or> i = 2")
      case True
      with p show ?thesis by auto
    next
      case False
      with p(1) obtain j where j: "i = Suc (Suc j)" "0 < j"
        by (metis One_nat_def Suc_1 gr0_conv_Suc not_gr_zero)
      with p have "j < length ?L" and "call_of (?L ! j) \<noteq> None" by auto
      from Cons.IH [OF j(2) this] have "?L ! (j - 1) = Returned" .
      with j show ?thesis by (cases j) simp_all
    qed
    then show ?thesis by (simp only: e)
  next
    case (Throw x)
    with r Cons.prems show ?thesis by (cases i) auto
  next
    case Cancel
    with r Cons.prems show ?thesis by (cases i) auto
  qed
qed

subsection \<open>The example chains, evaluated\<close>

lemmas eval_defs = build_def example_calls_def example_invariant_calls_def
  example_invariants_def example_config_def task_only_calls_def toString_calls_def
  reserved_calls_def repeated_calls_def runWhile_def saga_op_def invariant_def
  onViolation_def alloc_def get_definition_def get_invariants_def get_callbacks_def
  lookup_def sagaRaceTag_def load_def bound_this_def

lemma example_build:
  "\<exists>st h. build example_calls = Some (Inr st, h) \<and> load h (bound_this st) = Some example_config"
  by (simp add: eval_defs)

lemma example_invariant_build:
  "\<exists>a h. build example_invariant_calls = Some (Inr (RunWhileInvariantMonad, a), h)
     \<and> load h a = Some (example_config\<lparr>cfg_callbacks := []\<rparr>)"
  by (simp add: eval_defs)

lemma task_only_build:
  "\<exists>a h. build task_only_calls = Some (Inr (RunWhileSagaMonad, a), h)
     \<and> load h a = Some \<lparr>cfg_saga = user_saga 0, cfg_invariants = [], cfg_callbacks = []\<rparr>"
  by (simp add: eval_defs)


lemma example_run:
  "run_chain example_calls m = Some (events m (runInternal_body example_config) [] 0)"
  by (simp add: run_chain_def run_def runInternal_def eval_defs)

lemma toString_run:
  "run_chain toString_calls m =
     Some (events m (runInternal_body
       \<lparr>cfg_saga = user_saga 0, cfg_invariants = [\<lparr>tag = ''toString'', clause = always\<rparr>],
        cfg_callbacks = [7]\<rparr>) [] 0)"
  by (simp add: run_chain_def run_def runInternal_def eval_defs)

lemmas run_defs = events_runInternal_body answers_def all_return_def first_pushes_def
  first_throws_def in_op_def object_literal_def Object_prototype_def example_config_def
  example_invariants_def at_least_def always_def

section \<open>The claims\<close>

subsection \<open>The violation set\<close>

text \<open>
  C1. Take any definition, and any run in which the race is answered with a result that an
  invariant-tagged branch has won: the tag of a registered invariant is an own key of the
  result. Whatever the middleware and the handlers do then, the generator yields exactly
  one select, right after the race. When the select is answered with the state \<open>s\<close>, the
  generator creates one array, and what it puts into it is the tags of the invariants whose
  clause is false on \<open>s\<close>, in registration order; the race result does not occur in it.
  No other state is read and no other array is created; every handler call of the run
  passes references to this state object and this array, and the first registered handler
  finds in them \<open>s\<close> and the list as it was created.
\<close>

theorem violations_from_one_snapshot:
  assumes "load h this = Some c"
    and "race_answer m = Next raceResults"
    and "\<exists>i \<in> set (cfg_invariants c). tag i \<in> set (own raceResults)"
  shows "\<exists>evs. map_option (\<lambda>g. events m g objs n) (runInternal h this) = Some evs
     \<and> take 2 evs = [Raced (raceDefinition (cfg_saga c) (cfg_invariants c)), Selecting]
     \<and> count_list evs Selecting = 1
     \<and> (\<forall>s. select_answer m = Next s \<longrightarrow>
          (\<exists>rest. evs =
               [Raced (raceDefinition (cfg_saga c) (cfg_invariants c)), Selecting,
                Selected (length objs) s,
                Created (Suc (length objs))
                  (map tag (filter (\<lambda>i. \<not> clause i s) (cfg_invariants c)))] @ rest
             \<and> (\<forall>a' s'. Selected a' s' \<notin> set rest)
             \<and> (\<forall>v' vs'. Created v' vs' \<notin> set rest)
             \<and> (\<forall>x \<in> set (calls rest). fst (snd x) = (length objs, Suc (length objs)))
             \<and> (cfg_callbacks c \<noteq> [] \<longrightarrow>
                  hd rest = Calling (hd (cfg_callbacks c)) (length objs) (Suc (length objs)) s
                    (map tag (filter (\<lambda>i. \<not> clause i s) (cfg_invariants c))))))"
proof -
  let ?rd = "raceDefinition (cfg_saga c) (cfg_invariants c) :: string \<rightharpoonup> ('a, 'b, 'c) call_effect"
  let ?vs = "\<lambda>s. map tag (filter (\<lambda>i. \<not> clause i s) (cfg_invariants c))"
  let ?L = "\<lambda>s. loop_events m (length objs) (Suc (length objs)) (cfg_callbacks c) n s (?vs s)
    :: ('a, 'b, 'c) event list"
  let ?evs = "events m (runInternal_body c) objs n"
  have t: "list_ex (\<lambda>i. in_op (tag i) raceResults) (cfg_invariants c)"
    by (rule won_by_invariant [OF assms(3)])
  have e: "?evs = Raced ?rd # Selecting #
      (case select_answer m of
         Next s \<Rightarrow> Selected (length objs) s # Created (Suc (length objs)) (?vs s) # ?L s
       | Throw x \<Rightarrow> [Thrown x]
       | Cancel \<Rightarrow> [Cancelled])"
    by (simp add: events_runInternal_body assms(2) t)
  have "take 2 ?evs = [Raced ?rd, Selecting]"
    by (simp add: e)
  moreover have "count_list ?evs Selecting = 1"
    by (simp add: e loop_no_read_or_array(1) split: resumption.splits)
  moreover have "\<exists>rest. ?evs =
               [Raced ?rd, Selecting, Selected (length objs) s, Created (Suc (length objs)) (?vs s)] @ rest
             \<and> (\<forall>a' s'. Selected a' s' \<notin> set rest)
             \<and> (\<forall>v' vs'. Created v' vs' \<notin> set rest)
             \<and> (\<forall>x \<in> set (calls rest). fst (snd x) = (length objs, Suc (length objs)))
             \<and> (cfg_callbacks c \<noteq> [] \<longrightarrow>
                  hd rest = Calling (hd (cfg_callbacks c)) (length objs) (Suc (length objs)) s (?vs s))"
    if "select_answer m = Next s" for s
  proof -
    from that have "?evs =
        [Raced ?rd, Selecting, Selected (length objs) s, Created (Suc (length objs)) (?vs s)] @ ?L s"
      by (simp add: e)
    moreover have "\<forall>a' s'. Selected a' s' \<notin> set (?L s)"
      and "\<forall>v' vs'. Created v' vs' \<notin> set (?L s)"
      by (simp_all add: loop_no_read_or_array)
    moreover have "\<forall>x \<in> set (calls (?L s)). fst (snd x) = (length objs, Suc (length objs))"
      by (intro ballI) (rule loop_calls_references)
    moreover have "cfg_callbacks c \<noteq> [] \<longrightarrow>
        hd (?L s) = Calling (hd (cfg_callbacks c)) (length objs) (Suc (length objs)) s (?vs s)"
      by (simp add: loop_first_call)
    ultimately show ?thesis by blast
  qed
  ultimately show ?thesis
    by (simp add: runInternal_load [OF assms(1)])
qed

text \<open>
  The example chain, the race won by \<open>C\<close>, the state read as 3, the first handler writing
  to the array: the array is created as \<open>['B', 'C']\<close> and the first handler finds that.
\<close>

theorem violations_from_one_snapshot_witness:
  "\<exists>st h evs rest. build example_calls = Some (Inr st, h)
     \<and> load h (bound_this st) = Some example_config
     \<and> race_answer (answers (object_literal [''C'']) 3 first_pushes) = Next (object_literal [''C''])
     \<and> ''C'' \<in> set (own (object_literal [''C'']))
     \<and> select_answer (answers (object_literal [''C'']) 3 first_pushes) = Next 3
     \<and> map_option (\<lambda>g. events (answers (object_literal [''C'']) 3 first_pushes) g [] 0)
          (runInternal h (bound_this st)) = Some evs
     \<and> count_list evs Selecting = 1
     \<and> evs = [Raced (raceDefinition (user_saga 0) example_invariants), Selecting,
               Selected 0 3, Created 1 [''B'', ''C'']] @ rest
     \<and> hd rest = Calling 1 0 1 3 [''B'', ''C'']"
proof -
  let ?m = "answers (object_literal [''C'']) 3 first_pushes"
  from example_build obtain st h where b: "build example_calls = Some (Inr st, h)"
    and l: "load h (bound_this st) = Some example_config" by blast
  have r: "race_answer ?m = Next (object_literal [''C''])" by (simp add: answers_def)
  have s: "select_answer ?m = Next 3" by (simp add: answers_def)
  have o: "''C'' \<in> set (own (object_literal [''C'']))" by (simp add: object_literal_def)
  have w: "\<exists>i \<in> set (cfg_invariants example_config). tag i \<in> set (own (object_literal [''C'']))"
    by (simp add: example_config_def example_invariants_def object_literal_def)
  from violations_from_one_snapshot [OF l r w, of "[]" 0] s obtain evs rest
    where "map_option (\<lambda>g. events ?m g [] 0) (runInternal h (bound_this st)) = Some evs"
      and "count_list evs Selecting = 1"
      and "evs = [Raced (raceDefinition (user_saga 0) example_invariants), Selecting,
               Selected 0 3, Created 1 [''B'', ''C'']] @ rest"
      and "hd rest = Calling 1 0 1 3 [''B'', ''C'']"
    by (auto simp: example_config_def example_invariants_def at_least_def)
  with b l r s o show ?thesis by blast
qed

subsection \<open>Errors of the builder\<close>

text \<open>
  C3. On a stage whose definition is in the store, \<open>invariant\<close> throws exactly when the tag
  is \<open>'@@Saga'\<close> or is the tag of an invariant already registered (equality of strings). The
  reserved tag gives the error with the message \<open>tag + " is reserved. Please choose another
  invariant tag."\<close>, a registered tag the error with the message \<open>tag + " is a"\<close>; the two
  messages are never equal. Any other tag gives a stage.
\<close>

theorem invariant_throws_iff_reserved_or_duplicate:
  assumes "load h this = Some c"
  shows "((\<exists>e. invariant h this tg cl = Some (Inl e, h))
            \<longleftrightarrow> (tg = sagaRaceTag \<or> tg \<in> tag ` set (cfg_invariants c)))
     \<and> (tg = sagaRaceTag \<longrightarrow> invariant h this tg cl =
          Some (Inl (Error (tg @ '' is reserved. Please choose another invariant tag.'')), h))
     \<and> (tg \<noteq> sagaRaceTag \<and> tg \<in> tag ` set (cfg_invariants c) \<longrightarrow>
          invariant h this tg cl = Some (Inl (Error (tg @ '' is a'')), h))
     \<and> (tg \<noteq> sagaRaceTag \<and> tg \<notin> tag ` set (cfg_invariants c) \<longrightarrow>
          (\<exists>st h'. invariant h this tg cl = Some (Inr st, h')))
     \<and> Error (sagaRaceTag @ '' is reserved. Please choose another invariant tag.'')
          \<noteq> Error (tg' @ '' is a'')"
proof (intro conjI impI)
  show "(\<exists>e. invariant h this tg cl = Some (Inl e, h))
            \<longleftrightarrow> (tg = sagaRaceTag \<or> tg \<in> tag ` set (cfg_invariants c))"
  proof
    assume "\<exists>e. invariant h this tg cl = Some (Inl e, h)"
    then obtain e where e: "invariant h this tg cl = Some (Inl e, h)" ..
    show "tg = sagaRaceTag \<or> tg \<in> tag ` set (cfg_invariants c)"
    proof (rule ccontr)
      assume "\<not> (tg = sagaRaceTag \<or> tg \<in> tag ` set (cfg_invariants c))"
      then have "tg \<noteq> sagaRaceTag" and "tg \<notin> tag ` set (cfg_invariants c)" by simp_all
      from invariant_success [OF assms this, of cl] e show False by auto
    qed
  next
    assume "tg = sagaRaceTag \<or> tg \<in> tag ` set (cfg_invariants c)"
    then show "\<exists>e. invariant h this tg cl = Some (Inl e, h)"
      using invariant_failure [OF assms, of tg cl] by blast
  qed
next
  assume "tg = sagaRaceTag"
  then show "invariant h this tg cl =
      Some (Inl (Error (tg @ '' is reserved. Please choose another invariant tag.'')), h)"
    by (rule invariant_failure(1) [OF assms])
next
  assume "tg \<noteq> sagaRaceTag \<and> tg \<in> tag ` set (cfg_invariants c)"
  then show "invariant h this tg cl = Some (Inl (Error (tg @ '' is a'')), h)"
    using invariant_failure(2) [OF assms] by blast
next
  assume "tg \<noteq> sagaRaceTag \<and> tg \<notin> tag ` set (cfg_invariants c)"
  then show "\<exists>st h'. invariant h this tg cl = Some (Inr st, h')"
    using invariant_success [OF assms, where tg = tg and cl = cl] by blast
next
  show "Error (sagaRaceTag @ '' is reserved. Please choose another invariant tag.'')
          \<noteq> Error (tg' @ '' is a'')"
    by (rule error_messages_differ)
qed

text \<open>
  On the stage with the invariants \<open>A\<close>, \<open>B\<close>, \<open>C\<close>: \<open>'@@Saga'\<close> is refused as reserved, \<open>'B'\<close> as
  a duplicate, \<open>'b'\<close> and \<open>'D'\<close> are accepted.
\<close>

theorem invariant_throws_iff_reserved_or_duplicate_witness:
  "\<exists>a h. build example_invariant_calls = Some (Inr (RunWhileInvariantMonad, a), h)
     \<and> load h a = Some (example_config\<lparr>cfg_callbacks := []\<rparr>)
     \<and> invariant h a ''@@Saga'' always =
         Some (Inl (Error ''@@Saga is reserved. Please choose another invariant tag.''), h)
     \<and> invariant h a ''B'' always = Some (Inl (Error ''B is a''), h)
     \<and> (\<exists>st h'. invariant h a ''b'' always = Some (Inr st, h'))
     \<and> (\<exists>st h'. invariant h a ''D'' always = Some (Inr st, h'))"
proof -
  from example_invariant_build obtain a h
    where b: "build example_invariant_calls = Some (Inr (RunWhileInvariantMonad, a), h)"
      and l: "load h a = Some (example_config\<lparr>cfg_callbacks := []\<rparr>)" by blast
  note t = invariant_throws_iff_reserved_or_duplicate [OF l, where cl = always]
  have "invariant h a ''@@Saga'' always =
         Some (Inl (Error ''@@Saga is reserved. Please choose another invariant tag.''), h)"
    using t [of "''@@Saga''"] by (simp add: sagaRaceTag_def)
  moreover have "invariant h a ''B'' always = Some (Inl (Error ''B is a''), h)"
    using t [of "''B''"] by (simp add: sagaRaceTag_def example_config_def example_invariants_def)
  moreover have "\<exists>st h'. invariant h a ''b'' always = Some (Inr st, h')"
    using t [of "''b''"] by (simp add: sagaRaceTag_def example_config_def example_invariants_def)
  moreover have "\<exists>st h'. invariant h a ''D'' always = Some (Inr st, h')"
    using t [of "''D''"] by (simp add: sagaRaceTag_def example_config_def example_invariants_def)
  ultimately show ?thesis using b l by blast
qed

subsection \<open>The task wins the race\<close>

text \<open>
  When the race is answered with a result that has the sentinel as its only own key, no
  tag is the sentinel and no tag is a property name the result object inherits, the run
  ends after the race: no state is read and no handler is called.
\<close>

lemma sentinel_only_ends_after_race:
  assumes "load h this = Some c"
    and "race_answer m = Next raceResults"
    and "own raceResults = [sagaRaceTag]"
    and "\<forall>i \<in> set (cfg_invariants c). tag i \<noteq> sagaRaceTag \<and> tag i \<notin> set (inherited raceResults)"
  shows "map_option (\<lambda>g. events m g objs n) (runInternal h this) =
     Some [Raced (raceDefinition (cfg_saga c) (cfg_invariants c)), Done]"
proof -
  from assms(3,4) have "\<not> list_ex (\<lambda>i. in_op (tag i) raceResults) (cfg_invariants c)"
    by (auto simp: list_ex_iff in_op_def)
  then show ?thesis
    by (simp add: runInternal_load [OF assms(1)] events_runInternal_body assms(2))
qed

text \<open>
  For a chain of the builder the first condition always holds, so what is left is that no
  tag is a property name of \<open>Object.prototype\<close>.
\<close>

lemma sentinel_only_on_built_chain:
  assumes "build cs = Some (Inr st, h)" and "load h (bound_this st) = Some c"
    and "race_answer m = Next (object_literal [sagaRaceTag])"
    and "\<forall>i \<in> set (cfg_invariants c). tag i \<notin> set Object_prototype"
  shows "map_option (\<lambda>g. events m g objs n) (runInternal h (bound_this st)) =
     Some [Raced (raceDefinition (cfg_saga c) (cfg_invariants c)), Done]"
proof -
  from build_well_formed [OF assms(1)] assms(2) have "well_formed c" by simp
  with assms(4)
  have "\<forall>i \<in> set (cfg_invariants c).
      tag i \<noteq> sagaRaceTag \<and> tag i \<notin> set (inherited (object_literal [sagaRaceTag]))"
    by (auto simp: well_formed_def object_literal_def image_iff)
  from sentinel_only_ends_after_race [OF assms(2,3) _ this] show ?thesis
    by (simp add: object_literal_def)
qed

text \<open>
  C2. The claim quantifies over every set of tags, and fails for a tag that the race result
  inherits from \<open>Object.prototype\<close> (the middleware answers a race with an object literal
  that has the completed keys). In the chain \<open>runWhile().saga(T).invariant('toString',
  s => true).onViolation(H7).run()\<close>, with the race answered by the result
  \<open>{ '@@Saga': ... }\<close> of a task that finished first, \<open>'toString' in raceResults\<close> is true:
  after the race the generator yields a select, creates an empty violations array and
  calls the handler with it.
\<close>

theorem sentinel_only_race_reaches_handler:
  "map_option tl (run_chain toString_calls (answers (object_literal [''@@Saga'']) 0 all_return)) =
     Some [Selecting, Selected 0 0, Created 1 [], Calling 7 0 1 0 [], Returned, Done]"
  by (simp add: toString_run run_defs)

subsection \<open>All clauses hold again when the state is read\<close>




subsection \<open>The handlers\<close>

text \<open>
  C5, as stated, fails. Take the example chain, the race won by \<open>C\<close> and the state read as
  3. When the first handler throws, the run ends there and the second registered handler
  is never called. When the first handler does \<open>violations.push('X')\<close>, the second handler
  finds \<open>['B', 'C', 'X']\<close> where the first found \<open>['B', 'C']\<close>.
\<close>

theorem second_handler_not_called_or_other_list:
  "map_option tl (run_chain example_calls (answers (object_literal [''C'']) 3 first_throws)) =
     Some [Selecting, Selected 0 3, Created 1 [''B'', ''C''],
           Calling 1 0 1 3 [''B'', ''C''], Thrown (Error ''boom'')]
   \<and> map_option tl (run_chain example_calls (answers (object_literal [''C'']) 3 first_pushes)) =
     Some [Selecting, Selected 0 3, Created 1 [''B'', ''C''],
           Calling 1 0 1 3 [''B'', ''C''], Returned,
           Calling 2 0 1 3 [''B'', ''C'', ''X''], Returned, Done]"
  by (simp add: example_run run_defs)

text \<open>
  C5, amended. On the violation path (the race and the select are answered, and the test
  \<open>this.invariants.some(invariant => invariant.tag in raceResults)\<close> is true) the handlers
  are called in registration order, each at most once, starting with the first. A handler
  other than the first is called only when the generator has just been resumed from the
  call before it with \<open>next\<close>, which a blocking call effect does when that handler's
  computation has completed; a call that throws or is cancelled ends the run. When every
  call returns, every registered handler is called exactly once and the generator ends.
  Every call passes the same state object and the same violations array; when no handler
  writes to them, every handler finds in them the state that was read and the tags as they
  were computed.
\<close>

theorem handlers_called_once_in_order:
  assumes "load h this = Some c"
    and "race_answer m = Next raceResults"
    and "list_ex (\<lambda>i. in_op (tag i) raceResults) (cfg_invariants c)"
    and "select_answer m = Next s"
  shows "\<exists>vs rest. map_option (\<lambda>g. events m g objs n) (runInternal h this) =
         Some ([Raced (raceDefinition (cfg_saga c) (cfg_invariants c)), Selecting,
                Selected (length objs) s, Created (Suc (length objs)) vs] @ rest)
     \<and> map fst (calls rest) = take (length (calls rest)) (cfg_callbacks c)
     \<and> (cfg_callbacks c \<noteq> [] \<longrightarrow>
          hd rest = Calling (hd (cfg_callbacks c)) (length objs) (Suc (length objs)) s vs)
     \<and> (\<forall>i. 0 < i \<and> i < length rest \<and> call_of (rest ! i) \<noteq> None \<longrightarrow>
          rest ! (i - 1) = Returned)
     \<and> (\<forall>x \<in> set (calls rest). fst (snd x) = (length objs, Suc (length objs)))
     \<and> ((\<forall>k cb s' vs'. fst (call_answer m k cb s' vs') = Next ()) \<longrightarrow>
          map fst (calls rest) = cfg_callbacks c \<and> last rest = Done)
     \<and> ((\<forall>k cb s' vs'. snd (call_answer m k cb s' vs') = (s', vs')) \<longrightarrow>
          (\<forall>x \<in> set (calls rest). snd (snd x) = (s, vs)))"
proof -
  let ?vs = "map tag (filter (\<lambda>i. \<not> clause i s) (cfg_invariants c))"
  let ?L = "loop_events m (length objs) (Suc (length objs)) (cfg_callbacks c) n s ?vs
    :: ('a, 'b, 'c) event list"
  have "map_option (\<lambda>g. events m g objs n) (runInternal h this) =
         Some ([Raced (raceDefinition (cfg_saga c) (cfg_invariants c)), Selecting,
                Selected (length objs) s, Created (Suc (length objs)) ?vs] @ ?L)"
    by (simp add: runInternal_load [OF assms(1)] events_runInternal_body assms(2,3,4))
  moreover have "map fst (calls ?L) = take (length (calls ?L)) (cfg_callbacks c)"
    by (rule loop_calls_in_order)
  moreover have "cfg_callbacks c \<noteq> [] \<longrightarrow>
      hd ?L = Calling (hd (cfg_callbacks c)) (length objs) (Suc (length objs)) s ?vs"
    by (simp add: loop_first_call)
  moreover have "\<forall>i. 0 < i \<and> i < length ?L \<and> call_of (?L ! i) \<noteq> None \<longrightarrow> ?L ! (i - 1) = Returned"
  proof (intro allI impI)
    fix i
    assume "0 < i \<and> i < length ?L \<and> call_of (?L ! i) \<noteq> None"
    then have "0 < i" and "i < length ?L" and "call_of (?L ! i) \<noteq> None" by simp_all
    then show "?L ! (i - 1) = Returned" by (rule loop_call_after_return)
  qed
  moreover have "\<forall>x \<in> set (calls ?L). fst (snd x) = (length objs, Suc (length objs))"
    by (intro ballI) (rule loop_calls_references)
  moreover have "(\<forall>k cb s' vs'. fst (call_answer m k cb s' vs') = Next ()) \<longrightarrow>
      map fst (calls ?L) = cfg_callbacks c \<and> last ?L = Done"
    by (intro impI) (rule loop_all_return)
  moreover have "(\<forall>k cb s' vs'. snd (call_answer m k cb s' vs') = (s', vs')) \<longrightarrow>
      (\<forall>x \<in> set (calls ?L). snd (snd x) = (s, ?vs))"
  proof (intro impI ballI)
    fix x
    assume u: "\<forall>k cb s' vs'. snd (call_answer m k cb s' vs') = (s', vs')"
      and x: "x \<in> set (calls ?L)"
    from u have "\<forall>k cb s' vs'. fst (snd (call_answer m k cb s' vs')) = s'"
      and "\<forall>k cb s' vs'. snd (snd (call_answer m k cb s' vs')) = vs'"
      by simp_all
    from loop_state_unwritten [OF this(1) x] loop_array_unwritten [OF this(2) x]
    show "snd (snd x) = (s, ?vs)" by (simp add: prod_eq_iff)
  qed
  ultimately show ?thesis by (intro exI conjI) assumption+
qed

text \<open>The example chain, the race won by \<open>C\<close>, the state read as 3, handlers that return.\<close>

theorem handlers_called_once_in_order_witness:
  "\<exists>st h vs rest. build example_calls = Some (Inr st, h)
     \<and> load h (bound_this st) = Some example_config
     \<and> race_answer (answers (object_literal [''C'']) 3 all_return) = Next (object_literal [''C''])
     \<and> list_ex (\<lambda>i. in_op (tag i) (object_literal [''C''])) (cfg_invariants example_config)
     \<and> select_answer (answers (object_literal [''C'']) 3 all_return) = Next 3
     \<and> map_option (\<lambda>g. events (answers (object_literal [''C'']) 3 all_return) g [] 0)
          (runInternal h (bound_this st)) =
         Some ([Raced (raceDefinition (user_saga 0) example_invariants), Selecting,
                Selected 0 3, Created 1 vs] @ rest)
     \<and> hd rest = Calling 1 0 1 3 vs
     \<and> map fst (calls rest) = [1, 2]
     \<and> last rest = Done
     \<and> list_all (\<lambda>x. snd x = ((0, 1), (3, vs))) (calls rest)"
proof -
  let ?m = "answers (object_literal [''C'']) 3 all_return"
  from example_build obtain st h where b: "build example_calls = Some (Inr st, h)"
    and l: "load h (bound_this st) = Some example_config" by blast
  have r: "race_answer ?m = Next (object_literal [''C''])" by (simp add: answers_def)
  have s: "select_answer ?m = Next 3" by (simp add: answers_def)
  have w: "list_ex (\<lambda>i. in_op (tag i) (object_literal [''C''])) (cfg_invariants example_config)"
    by (simp add: example_config_def example_invariants_def object_literal_def in_op_def)
  have a1: "\<forall>k cb s' vs'. fst (call_answer ?m k cb s' vs') = Next ()"
    by (simp add: answers_def all_return_def)
  have a2: "\<forall>k cb s' vs'. snd (call_answer ?m k cb s' vs') = (s', vs')"
    by (simp add: answers_def all_return_def)
  let ?o = "[] :: int obj list"
  let ?P = "\<lambda>vs rest.
       map_option (\<lambda>g. events ?m g [] 0) (runInternal h (bound_this st)) =
         Some ([Raced (raceDefinition (cfg_saga example_config) (cfg_invariants example_config)),
                Selecting, Selected (length ?o) 3, Created (Suc (length ?o)) vs] @ rest)
     \<and> map fst (calls rest) = take (length (calls rest)) (cfg_callbacks example_config)
     \<and> (cfg_callbacks example_config \<noteq> [] \<longrightarrow>
          hd rest = Calling (hd (cfg_callbacks example_config)) (length ?o) (Suc (length ?o)) 3 vs)
     \<and> (\<forall>i. 0 < i \<and> i < length rest \<and> call_of (rest ! i) \<noteq> None \<longrightarrow>
          rest ! (i - 1) = Returned)
     \<and> (\<forall>x \<in> set (calls rest). fst (snd x) = (length ?o, Suc (length ?o)))
     \<and> ((\<forall>k cb s' vs'. fst (call_answer ?m k cb s' vs') = Next ()) \<longrightarrow>
          map fst (calls rest) = cfg_callbacks example_config \<and> last rest = Done)
     \<and> ((\<forall>k cb s' vs'. snd (call_answer ?m k cb s' vs') = (s', vs')) \<longrightarrow>
          (\<forall>x \<in> set (calls rest). snd (snd x) = (3, vs)))"
  from handlers_called_once_in_order [OF l r w s, of ?o 0]
  obtain vs where "\<exists>rest. ?P vs rest" ..
  then obtain rest where t: "?P vs rest" ..
  note e = t [THEN conjunct1]
  note t3 = t [THEN conjunct2, THEN conjunct2]
  note f = t3 [THEN conjunct1]
  note t5 = t3 [THEN conjunct2, THEN conjunct2]
  note p = t5 [THEN conjunct1]
  note a = mp [OF t5 [THEN conjunct2, THEN conjunct1] a1]
  note u = mp [OF t5 [THEN conjunct2, THEN conjunct2] a2]
  from e have e': "map_option (\<lambda>g. events ?m g [] 0) (runInternal h (bound_this st)) =
         Some ([Raced (raceDefinition (user_saga 0) example_invariants), Selecting,
                Selected 0 3, Created 1 vs] @ rest)"
    by (simp add: example_config_def)
  from f have f': "hd rest = Calling 1 0 1 3 vs" by (simp add: example_config_def)
  from a have a': "map fst (calls rest) = [1, 2]" "last rest = Done"
    by (simp_all add: example_config_def)
  from p u have "list_all (\<lambda>x. snd x = ((0, 1), (3, vs))) (calls rest)"
    by (simp add: list_all_iff prod_eq_iff)
  with b l r w s e' f' a' show ?thesis by (intro exI conjI) assumption+
qed

subsection \<open>No invariants\<close>

text \<open>
  C6. For a definition with no invariants the generator yields one race whose only branch
  is the task, under the sentinel key, and returns whatever the race result is: the test
  \<open>this.invariants.some(...)\<close> over an empty array is false, so no state is read and no
  handler is called. In every run the generator ends where the race ends: normally when
  the race is answered, and with the exception or the cancellation of the race otherwise.
\<close>

theorem no_invariants_task_alone:
  assumes "load h this = Some c" and "cfg_invariants c = []"
  shows "runInternal h this =
       Some (YieldRace [sagaRaceTag \<mapsto> CallSaga (cfg_saga c)] (\<lambda>raceResults. Return))
     \<and> map_option (\<lambda>g. events m g objs n) (runInternal h this) =
       Some (Raced [sagaRaceTag \<mapsto> CallSaga (cfg_saga c)] #
             (case race_answer m of
                Next raceResults \<Rightarrow> [Done]
              | Throw e \<Rightarrow> [Thrown e]
              | Cancel \<Rightarrow> [Cancelled]))"
  using assms
  by (simp add: runInternal_load runInternal_body_def raceDefinition_def split: resumption.splits)

text \<open>The chain \<open>runWhile().saga(T)\<close>, whatever the race reports and the state is.\<close>

theorem no_invariants_task_alone_witness:
  "\<exists>a h. build task_only_calls = Some (Inr (RunWhileSagaMonad, a), h)
     \<and> load h a = Some \<lparr>cfg_saga = user_saga 0, cfg_invariants = [], cfg_callbacks = []\<rparr>
     \<and> map_option (\<lambda>g. events (answers (object_literal [''@@Saga'', ''toString'']) 3 all_return) g [] 0)
          (runInternal h a) =
         Some [Raced [''@@Saga'' \<mapsto> CallSaga (user_saga 0)], Done]"
proof -
  from task_only_build obtain a h
    where b: "build task_only_calls = Some (Inr (RunWhileSagaMonad, a), h)"
      and l: "load h a = Some \<lparr>cfg_saga = user_saga 0, cfg_invariants = [], cfg_callbacks = []\<rparr>"
    by blast
  from no_invariants_task_alone
    [OF l, of "answers (object_literal [''@@Saga'', ''toString'']) 3 all_return" "[]" 0] b l
  show ?thesis by (auto simp: sagaRaceTag_def answers_def)
qed

subsection \<open>Two distinct tags\<close>

text \<open>
  C7, as stated, fails: distinct tags are refused when one of them is the reserved tag
  (\<open>'@@Saga'\<close> then \<open>'A'\<close> on a fresh stage), or is already registered in the definition
  (\<open>'A'\<close> then \<open>'B'\<close> on a stage that has \<open>'A'\<close>).
\<close>

theorem distinct_tags_refused:
  "''@@Saga'' \<noteq> ''A''
     \<and> map_option fst (build reserved_calls) =
         Some (Inl (Error ''@@Saga is reserved. Please choose another invariant tag.''))
     \<and> ''A'' \<noteq> ''B''
     \<and> map_option fst (build repeated_calls) = Some (Inl (Error ''A is a''))"
  by (simp add: eval_defs)

text \<open>
  C7, amended. For all distinct tags \<open>t1\<close>, \<open>t2\<close>, neither of them \<open>'@@Saga'\<close> and neither
  of them registered in the definition, adding \<open>t1\<close> and then \<open>t2\<close> does not fail: both calls
  return a stage, and the last stage has the two invariants appended, in that order.
\<close>

theorem distinct_fresh_tags_accepted:
  assumes "load h this = Some c"
    and "t1 \<noteq> t2"
    and "t1 \<noteq> sagaRaceTag" and "t2 \<noteq> sagaRaceTag"
    and "t1 \<notin> tag ` set (cfg_invariants c)" and "t2 \<notin> tag ` set (cfg_invariants c)"
  shows "\<exists>a1 h1 a2 h2.
       invariant h this t1 cl1 = Some (Inr (RunWhileInvariantMonad, a1), h1)
     \<and> invariant h1 a1 t2 cl2 = Some (Inr (RunWhileInvariantMonad, a2), h2)
     \<and> load h2 a2 =
         Some (c\<lparr>cfg_invariants :=
                   cfg_invariants c @ [\<lparr>tag = t1, clause = cl1\<rparr>, \<lparr>tag = t2, clause = cl2\<rparr>]\<rparr>)"
proof -
  let ?c1 = "c\<lparr>cfg_invariants := cfg_invariants c @ [\<lparr>tag = t1, clause = cl1\<rparr>]\<rparr>"
  from invariant_success [OF assms(1,3,5), of cl1] obtain ext
    where r1: "invariant h this t1 cl1 = Some (Inr (RunWhileInvariantMonad, Suc (length h)), h @ ext)"
      and l1: "load (h @ ext) (Suc (length h)) = Some ?c1"
    by blast
  from assms(2,6) have "t2 \<notin> tag ` set (cfg_invariants ?c1)" by auto
  from invariant_success [OF l1 assms(4) this, of cl2] obtain ext'
    where r2: "invariant (h @ ext) (Suc (length h)) t2 cl2 =
        Some (Inr (RunWhileInvariantMonad, Suc (length (h @ ext))), (h @ ext) @ ext')"
      and l2: "load ((h @ ext) @ ext') (Suc (length (h @ ext))) =
        Some (?c1\<lparr>cfg_invariants := cfg_invariants ?c1 @ [\<lparr>tag = t2, clause = cl2\<rparr>]\<rparr>)"
    by blast
  from l2 have "load ((h @ ext) @ ext') (Suc (length (h @ ext))) =
      Some (c\<lparr>cfg_invariants :=
                cfg_invariants c @ [\<lparr>tag = t1, clause = cl1\<rparr>, \<lparr>tag = t2, clause = cl2\<rparr>]\<rparr>)"
    by simp
  with r1 r2 show ?thesis by blast
qed

text \<open>\<open>runWhile().saga(T)\<close>, then \<open>.invariant('A', ...)\<close> and \<open>.invariant('B', ...)\<close>.\<close>

theorem distinct_fresh_tags_accepted_witness:
  "\<exists>a h a1 h1 a2 h2. build task_only_calls = Some (Inr (RunWhileSagaMonad, a), h)
     \<and> load h a = Some \<lparr>cfg_saga = user_saga 0, cfg_invariants = [], cfg_callbacks = []\<rparr>
     \<and> ''A'' \<noteq> ''B'' \<and> ''A'' \<noteq> sagaRaceTag \<and> ''B'' \<noteq> sagaRaceTag
     \<and> invariant h a ''A'' (at_least 0) = Some (Inr (RunWhileInvariantMonad, a1), h1)
     \<and> invariant h1 a1 ''B'' (at_least 5) = Some (Inr (RunWhileInvariantMonad, a2), h2)
     \<and> load h2 a2 =
         Some \<lparr>cfg_saga = user_saga 0,
               cfg_invariants = [\<lparr>tag = ''A'', clause = at_least 0\<rparr>, \<lparr>tag = ''B'', clause = at_least 5\<rparr>],
               cfg_callbacks = []\<rparr>"
proof -
  from task_only_build obtain a h
    where b: "build task_only_calls = Some (Inr (RunWhileSagaMonad, a), h)"
      and l: "load h a = Some \<lparr>cfg_saga = user_saga 0, cfg_invariants = [], cfg_callbacks = []\<rparr>"
    by blast
  have d: "''A'' \<noteq> ''B''" "''A'' \<noteq> sagaRaceTag" "''B'' \<noteq> sagaRaceTag"
    by (simp_all add: sagaRaceTag_def)
  from distinct_fresh_tags_accepted [OF l d, of "at_least 0" "at_least 5"] b l d
  show ?thesis by auto
qed

subsection \<open>Builder calls allocate and never write\<close>

lemma unchanged_append: "take (length h) (h @ ext) = h"
  by simp

lemma fresh_address: "lookup h (length h) = None" "lookup h (Suc (length h)) = None"
  by (simp_all add: lookup_def)

text \<open>
  C8. Each builder method, on a stage whose definition reads as \<open>c\<close>, returns a stage bound
  to an address that was not in use; the cells that existed are the same afterwards, so
  every definition that could be read before reads the same (the receiver among them), and
  the new definition reads as \<open>c\<close> with the task replaced (\<open>saga\<close>), with exactly the new
  invariant appended (\<open>invariant\<close>, for a tag that is accepted), or with exactly the new
  handler appended (\<open>onViolation\<close>).
\<close>

theorem builder_call_appends_and_preserves:
  assumes "load h this = Some c"
  shows "(\<exists>a h'. saga_op h this sg = Some ((RunWhileSagaMonad, a), h')
            \<and> lookup h a = None \<and> take (length h) h' = h
            \<and> load h' a = Some (c\<lparr>cfg_saga := user_saga sg\<rparr>)
            \<and> load h' this = Some c
            \<and> (\<forall>b c'. load h b = Some c' \<longrightarrow> load h' b = Some c'))
     \<and> (tg \<noteq> sagaRaceTag \<and> tg \<notin> tag ` set (cfg_invariants c) \<longrightarrow>
          (\<exists>a h'. invariant h this tg cl = Some (Inr (RunWhileInvariantMonad, a), h')
            \<and> lookup h a = None \<and> take (length h) h' = h
            \<and> load h' a = Some (c\<lparr>cfg_invariants := cfg_invariants c @ [\<lparr>tag = tg, clause = cl\<rparr>]\<rparr>)
            \<and> load h' this = Some c
            \<and> (\<forall>b c'. load h b = Some c' \<longrightarrow> load h' b = Some c')))
     \<and> (\<exists>a h'. onViolation h this cb = Some ((RunWhileOnViolationMonad, a), h')
            \<and> lookup h a = None \<and> take (length h) h' = h
            \<and> load h' a = Some (c\<lparr>cfg_callbacks := cfg_callbacks c @ [cb]\<rparr>)
            \<and> load h' this = Some c
            \<and> (\<forall>b c'. load h b = Some c' \<longrightarrow> load h' b = Some c'))"
proof (intro conjI impI)
  from saga_op_success [OF assms, of sg] obtain ext
    where "saga_op h this sg = Some ((RunWhileSagaMonad, length h), h @ ext)"
      and "load (h @ ext) (length h) = Some (c\<lparr>cfg_saga := user_saga sg\<rparr>)"
    by blast
  then show "\<exists>a h'. saga_op h this sg = Some ((RunWhileSagaMonad, a), h')
            \<and> lookup h a = None \<and> take (length h) h' = h
            \<and> load h' a = Some (c\<lparr>cfg_saga := user_saga sg\<rparr>)
            \<and> load h' this = Some c
            \<and> (\<forall>b c'. load h b = Some c' \<longrightarrow> load h' b = Some c')"
    using load_append [of h _ _ ext] assms fresh_address(1) [of h] unchanged_append [of h ext]
    by blast
next
  assume "tg \<noteq> sagaRaceTag \<and> tg \<notin> tag ` set (cfg_invariants c)"
  then have "tg \<noteq> sagaRaceTag" and "tg \<notin> tag ` set (cfg_invariants c)" by simp_all
  from invariant_success [OF assms this, of cl] obtain ext
    where "invariant h this tg cl = Some (Inr (RunWhileInvariantMonad, Suc (length h)), h @ ext)"
      and "load (h @ ext) (Suc (length h)) =
         Some (c\<lparr>cfg_invariants := cfg_invariants c @ [\<lparr>tag = tg, clause = cl\<rparr>]\<rparr>)"
    by blast
  then show "\<exists>a h'. invariant h this tg cl = Some (Inr (RunWhileInvariantMonad, a), h')
            \<and> lookup h a = None \<and> take (length h) h' = h
            \<and> load h' a = Some (c\<lparr>cfg_invariants := cfg_invariants c @ [\<lparr>tag = tg, clause = cl\<rparr>]\<rparr>)
            \<and> load h' this = Some c
            \<and> (\<forall>b c'. load h b = Some c' \<longrightarrow> load h' b = Some c')"
    using load_append [of h _ _ ext] assms fresh_address(2) [of h] unchanged_append [of h ext]
    by blast
next
  from onViolation_success [OF assms, of cb] obtain ext
    where "onViolation h this cb = Some ((RunWhileOnViolationMonad, Suc (length h)), h @ ext)"
      and "load (h @ ext) (Suc (length h)) = Some (c\<lparr>cfg_callbacks := cfg_callbacks c @ [cb]\<rparr>)"
    by blast
  then show "\<exists>a h'. onViolation h this cb = Some ((RunWhileOnViolationMonad, a), h')
            \<and> lookup h a = None \<and> take (length h) h' = h
            \<and> load h' a = Some (c\<lparr>cfg_callbacks := cfg_callbacks c @ [cb]\<rparr>)
            \<and> load h' this = Some c
            \<and> (\<forall>b c'. load h b = Some c' \<longrightarrow> load h' b = Some c')"
    using load_append [of h _ _ ext] assms fresh_address(2) [of h] unchanged_append [of h ext]
    by blast
qed

text \<open>
  On the stage with the invariants \<open>A\<close>, \<open>B\<close>, \<open>C\<close>: \<open>.invariant('D', ...)\<close> gives a new stage
  with four invariants and the receiver still has three; \<open>.onViolation(H9)\<close> gives a new
  stage with one handler and the receiver still has none.
\<close>

theorem builder_call_appends_and_preserves_witness:
  "\<exists>a h. build example_invariant_calls = Some (Inr (RunWhileInvariantMonad, a), h)
     \<and> load h a = Some (example_config\<lparr>cfg_callbacks := []\<rparr>)
     \<and> ''D'' \<noteq> sagaRaceTag
     \<and> (\<exists>a' h'. invariant h a ''D'' always = Some (Inr (RunWhileInvariantMonad, a'), h')
          \<and> lookup h a' = None \<and> take (length h) h' = h
          \<and> load h' a' =
              Some \<lparr>cfg_saga = user_saga 0,
                    cfg_invariants = example_invariants @ [\<lparr>tag = ''D'', clause = always\<rparr>],
                    cfg_callbacks = []\<rparr>
          \<and> load h' a = Some (example_config\<lparr>cfg_callbacks := []\<rparr>))
     \<and> (\<exists>a' h'. onViolation h a 9 = Some ((RunWhileOnViolationMonad, a'), h')
          \<and> lookup h a' = None \<and> take (length h) h' = h
          \<and> load h' a' =
              Some \<lparr>cfg_saga = user_saga 0, cfg_invariants = example_invariants, cfg_callbacks = [9]\<rparr>
          \<and> load h' a = Some (example_config\<lparr>cfg_callbacks := []\<rparr>))
     \<and> (\<exists>a' h'. saga_op h a 4 = Some ((RunWhileSagaMonad, a'), h')
          \<and> load h' a' =
              Some \<lparr>cfg_saga = user_saga 4, cfg_invariants = example_invariants, cfg_callbacks = []\<rparr>
          \<and> load h' a = Some (example_config\<lparr>cfg_callbacks := []\<rparr>))"
proof -
  from example_invariant_build obtain a h
    where b: "build example_invariant_calls = Some (Inr (RunWhileInvariantMonad, a), h)"
      and l: "load h a = Some (example_config\<lparr>cfg_callbacks := []\<rparr>)" by blast
  have d: "''D'' \<noteq> sagaRaceTag" by (simp add: sagaRaceTag_def)
  have n: "''D'' \<notin> tag ` set (cfg_invariants (example_config\<lparr>cfg_callbacks := []\<rparr>))"
    by (simp add: example_config_def example_invariants_def)
  note t = builder_call_appends_and_preserves [OF l, of 4 "''D''" always 9]
  from t d n have "\<exists>a' h'. invariant h a ''D'' always = Some (Inr (RunWhileInvariantMonad, a'), h')
          \<and> lookup h a' = None \<and> take (length h) h' = h
          \<and> load h' a' =
              Some \<lparr>cfg_saga = user_saga 0,
                    cfg_invariants = example_invariants @ [\<lparr>tag = ''D'', clause = always\<rparr>],
                    cfg_callbacks = []\<rparr>
          \<and> load h' a = Some (example_config\<lparr>cfg_callbacks := []\<rparr>)"
    by (simp add: example_config_def) blast
  moreover from t have "\<exists>a' h'. onViolation h a 9 = Some ((RunWhileOnViolationMonad, a'), h')
          \<and> lookup h a' = None \<and> take (length h) h' = h
          \<and> load h' a' =
              Some \<lparr>cfg_saga = user_saga 0, cfg_invariants = example_invariants, cfg_callbacks = [9]\<rparr>
          \<and> load h' a = Some (example_config\<lparr>cfg_callbacks := []\<rparr>)"
    by (simp add: example_config_def) blast
  moreover from t have "\<exists>a' h'. saga_op h a 4 = Some ((RunWhileSagaMonad, a'), h')
          \<and> load h' a' =
              Some \<lparr>cfg_saga = user_saga 4, cfg_invariants = example_invariants, cfg_callbacks = []\<rparr>
          \<and> load h' a = Some (example_config\<lparr>cfg_callbacks := []\<rparr>)"
    by (simp add: example_config_def) blast
  ultimately show ?thesis using b l d by blast
qed

subsection \<open>Calling a method twice\<close>

text \<open>
  C9. A builder method is called on a stage and returns a stage; the same call is made
  again on the same stage. The second call returns a stage of the same type, bound to
  another definition object; the two definitions read the same (the receiver's
  configuration extended by the call) and give the same generator. Whatever builder method
  is then called on one of the two stages, with whatever result, the other stage's
  definition reads as before and gives the same generator as before: the objects the two
  stages share are never written.
\<close>

theorem same_call_twice_gives_independent_stages:
  assumes "load h (bound_this st) = Some c"
    and "call_method h st bc = Some (Inr st1, h1)"
  shows "\<exists>st2 h2. call_method h1 st bc = Some (Inr st2, h2)
     \<and> fst st2 = fst st1 \<and> bound_this st2 \<noteq> bound_this st1
     \<and> load h2 (bound_this st1) = Some (config_after bc c)
     \<and> load h2 (bound_this st2) = Some (config_after bc c)
     \<and> runInternal h2 (bound_this st2) = runInternal h2 (bound_this st1)
     \<and> (\<forall>bc' r h3. call_method h2 st1 bc' = Some (r, h3) \<longrightarrow>
           load h3 (bound_this st2) = load h2 (bound_this st2)
         \<and> runInternal h3 (bound_this st2) = runInternal h2 (bound_this st2))
     \<and> (\<forall>bc' r h3. call_method h2 st2 bc' = Some (r, h3) \<longrightarrow>
           load h3 (bound_this st1) = load h2 (bound_this st1)
         \<and> runInternal h3 (bound_this st1) = runInternal h2 (bound_this st1))"
proof -
  note s1 = call_method_stage [OF assms]
  from call_method_keeps_definitions(1) [OF assms(2) assms(1)]
  have l1: "load h1 (bound_this st) = Some c" .
  from call_method_again [OF assms(1) l1 assms(2)] obtain st2 h2
    where r2: "call_method h1 st bc = Some (Inr st2, h2)" and k: "fst st2 = fst st1"
    by blast
  note s2 = call_method_stage [OF l1 r2]
  from s1(1) s2(2) have ne: "bound_this st2 \<noteq> bound_this st1" by simp
  from call_method_keeps_definitions(1) [OF r2 s1(3)]
  have a: "load h2 (bound_this st1) = Some (config_after bc c)" .
  from a s2(3) have g: "runInternal h2 (bound_this st2) = runInternal h2 (bound_this st1)"
    by (simp add: runInternal_def)
  have i1: "\<forall>bc' r h3. call_method h2 st1 bc' = Some (r, h3) \<longrightarrow>
           load h3 (bound_this st2) = load h2 (bound_this st2)
         \<and> runInternal h3 (bound_this st2) = runInternal h2 (bound_this st2)"
    using call_method_keeps_definitions [OF _ s2(3)] s2(3) by simp
  have i2: "\<forall>bc' r h3. call_method h2 st2 bc' = Some (r, h3) \<longrightarrow>
           load h3 (bound_this st1) = load h2 (bound_this st1)
         \<and> runInternal h3 (bound_this st1) = runInternal h2 (bound_this st1)"
    using call_method_keeps_definitions [OF _ a] a by simp
  from r2 k ne a s2(3) g i1 i2 show ?thesis by blast
qed

text \<open>
  On the stage with the invariants \<open>A\<close>, \<open>B\<close>, \<open>C\<close>: \<open>.invariant('D', ...)\<close> twice gives two
  stages with four invariants each; after \<open>.onViolation(H9)\<close> on the first, the second still
  has four invariants and no handler.
\<close>

theorem same_call_twice_gives_independent_stages_witness:
  "\<exists>a h st1 h1 st2 h2 st3 h3.
       build example_invariant_calls = Some (Inr (RunWhileInvariantMonad, a), h)
     \<and> load h a = Some (example_config\<lparr>cfg_callbacks := []\<rparr>)
     \<and> call_method h (RunWhileInvariantMonad, a) (Invariant ''D'' always) = Some (Inr st1, h1)
     \<and> call_method h1 (RunWhileInvariantMonad, a) (Invariant ''D'' always) = Some (Inr st2, h2)
     \<and> fst st2 = fst st1 \<and> bound_this st2 \<noteq> bound_this st1
     \<and> load h2 (bound_this st1) = load h2 (bound_this st2)
     \<and> call_method h2 st1 (OnViolation 9) = Some (Inr st3, h3)
     \<and> load h3 (bound_this st2) =
         Some \<lparr>cfg_saga = user_saga 0,
               cfg_invariants = example_invariants @ [\<lparr>tag = ''D'', clause = always\<rparr>],
               cfg_callbacks = []\<rparr>"
proof -
  from example_invariant_build obtain a h
    where b: "build example_invariant_calls = Some (Inr (RunWhileInvariantMonad, a), h)"
      and l: "load h a = Some (example_config\<lparr>cfg_callbacks := []\<rparr>)" by blast
  let ?st = "(RunWhileInvariantMonad, a)"
  let ?bc = "Invariant ''D'' always :: (int, nat, nat) builder_call"
  let ?c = "\<lparr>cfg_saga = user_saga 0,
             cfg_invariants = example_invariants @ [\<lparr>tag = ''D'', clause = always\<rparr>],
             cfg_callbacks = ([] :: nat list)\<rparr>"
  from l have l0: "load h (bound_this ?st) = Some (example_config\<lparr>cfg_callbacks := []\<rparr>)"
    by (simp add: bound_this_def)
  have "''D'' \<noteq> sagaRaceTag"
    and "''D'' \<notin> tag ` set (cfg_invariants (example_config\<lparr>cfg_callbacks := []\<rparr>))"
    by (simp_all add: sagaRaceTag_def example_config_def example_invariants_def)
  from invariant_success [OF l this, of always] obtain st1 h1
    where r1: "call_method h ?st ?bc = Some (Inr st1, h1)" by auto
  from same_call_twice_gives_independent_stages [OF l0 r1] obtain st2 h2
    where r2: "call_method h1 ?st ?bc = Some (Inr st2, h2)"
      and k: "fst st2 = fst st1" and ne: "bound_this st2 \<noteq> bound_this st1"
      and a1: "load h2 (bound_this st1) = Some (config_after ?bc (example_config\<lparr>cfg_callbacks := []\<rparr>))"
      and a2: "load h2 (bound_this st2) = Some (config_after ?bc (example_config\<lparr>cfg_callbacks := []\<rparr>))"
      and i: "\<forall>bc' r h3. call_method h2 st1 bc' = Some (r, h3) \<longrightarrow>
           load h3 (bound_this st2) = load h2 (bound_this st2)
         \<and> runInternal h3 (bound_this st2) = runInternal h2 (bound_this st2)"
    by blast
  from r1 have t1: "fst st1 = RunWhileInvariantMonad"
    by (auto simp: invariant_def split: option.splits if_splits prod.splits)
  then have st1: "st1 = (RunWhileInvariantMonad, bound_this st1)"
    by (cases st1) (simp add: bound_this_def)
  from onViolation_success [OF a1, of 9] st1 obtain st3 h3
    where r3: "call_method h2 st1 (OnViolation 9) = Some (Inr st3, h3)"
    by (metis call_method.simps(4) map_option_case option.simps(5) case_prod_conv)
  from i r3 a2 have f: "load h3 (bound_this st2) = Some ?c"
    by (simp add: example_config_def)
  from a1 a2 have e: "load h2 (bound_this st1) = load h2 (bound_this st2)" by simp
  from b l r1 r2 k ne e r3 f show ?thesis by blast
qed

subsection \<open>A call that throws\<close>

text \<open>
  C10. When \<open>invariant\<close> throws, either error, the store is the one before the call: no
  object was created or written. So the receiver's definition reads the same, gives the
  same generator, and every later builder call, on this stage or on any other, returns
  what it would have returned without the failed call.
\<close>

theorem failed_invariant_changes_nothing:
  assumes "invariant h this tg cl = Some (Inl e, h')"
  shows "h' = h
     \<and> load h' this = load h this
     \<and> runInternal h' this = runInternal h this
     \<and> call_method h' st bc = call_method h st bc"
proof -
  from assms have "h' = h"
    by (auto simp: invariant_def alloc_def split: if_splits option.splits)
  then show ?thesis by simp
qed

text \<open>
  On the stage with the invariants \<open>A\<close>, \<open>B\<close>, \<open>C\<close>, a failed \<open>.invariant('B', ...)\<close> and a
  failed \<open>.invariant('@@Saga', ...)\<close>; \<open>.invariant('D', ...)\<close> is accepted afterwards.
\<close>

theorem failed_invariant_changes_nothing_witness:
  "\<exists>a h h' h''. build example_invariant_calls = Some (Inr (RunWhileInvariantMonad, a), h)
     \<and> invariant h a ''B'' always = Some (Inl (Error ''B is a''), h')
     \<and> invariant h' a ''@@Saga'' always =
         Some (Inl (Error ''@@Saga is reserved. Please choose another invariant tag.''), h'')
     \<and> h' = h \<and> h'' = h
     \<and> load h'' a = Some (example_config\<lparr>cfg_callbacks := []\<rparr>)
     \<and> call_method h'' (RunWhileInvariantMonad, a) (Invariant ''D'' always) =
         call_method h (RunWhileInvariantMonad, a) (Invariant ''D'' always)"
proof -
  from example_invariant_build obtain a h
    where b: "build example_invariant_calls = Some (Inr (RunWhileInvariantMonad, a), h)"
      and l: "load h a = Some (example_config\<lparr>cfg_callbacks := []\<rparr>)" by blast
  have "''B'' \<noteq> sagaRaceTag"
    and "''B'' \<in> tag ` set (cfg_invariants (example_config\<lparr>cfg_callbacks := []\<rparr>))"
    by (simp_all add: sagaRaceTag_def example_config_def example_invariants_def)
  from invariant_failure(2) [OF l this, of always]
  have f1: "invariant h a ''B'' always = Some (Inl (Error ''B is a''), h)" by simp
  have f2: "invariant h a ''@@Saga'' always =
         Some (Inl (Error ''@@Saga is reserved. Please choose another invariant tag.''), h)"
    by (simp add: invariant_def sagaRaceTag_def)
  from failed_invariant_changes_nothing [OF f1] failed_invariant_changes_nothing [OF f2]
    b l f1 f2
  show ?thesis by blast
qed

end

